theory Spec2Isabelle
  imports Complex_Main "HOL-Library.Sublist"
begin

section \<open>Python values and failures\<close>

text \<open>
  The generator is a Python script (\<^verbatim>\<open>scripts/generate_bean.py\<close>).  Its integers are
  unbounded (\<open>int\<close>); its floating-point numbers are modelled by the real numbers they
  approximate, with \<^verbatim>\<open>math.pi\<close>, \<^verbatim>\<open>math.cos\<close> and \<^verbatim>\<open>math.sin\<close> read as \<open>pi\<close>, \<open>cos\<close> and
  \<open>sin\<close>: every statement below about the value of a coordinate is a statement of
  exact arithmetic and says nothing about the rounded value that the script computes or the
  host stores.  Every exception the script can raise is a value
  (\<^verbatim>\<open>ReferenceError\<close>: an object that was removed; \<^verbatim>\<open>RuntimeError\<close>: an operator whose
  context is wrong).
\<close>

datatype py_error =
  ZeroDivisionError | IndexError | ValueError | ReferenceError | RuntimeError

type_synonym 'a result = "py_error + 'a"

definition and_then :: "'a result \<Rightarrow> ('a \<Rightarrow> 'b result) \<Rightarrow> 'b result" where
  "and_then m f = (case m of Inl e \<Rightarrow> Inl e | Inr x \<Rightarrow> f x)"

text \<open>\<^verbatim>\<open>range(n)\<close>, \<^verbatim>\<open>range(a, b)\<close> and \<^verbatim>\<open>range(a, b, -1)\<close>.\<close>

definition range1 :: "int \<Rightarrow> int list" where
  "range1 n = [0..n - 1]"

definition range2 :: "int \<Rightarrow> int \<Rightarrow> int list" where
  "range2 a b = [a..b - 1]"

definition range_down :: "int \<Rightarrow> int \<Rightarrow> int list" where
  "range_down a b = rev [b + 1..a]"

text \<open>True division \<^verbatim>\<open>a / b\<close> and the remainder \<^verbatim>\<open>a % b\<close>; both raise on a zero divisor.\<close>

definition truediv :: "real \<Rightarrow> real \<Rightarrow> real result" where
  "truediv a b = (if b = 0 then Inl ZeroDivisionError else Inr (a / b))"

definition py_mod :: "int \<Rightarrow> int \<Rightarrow> int result" where
  "py_mod a b = (if b = 0 then Inl ZeroDivisionError else Inr (a mod b))"

text \<open>List indexing \<^verbatim>\<open>xs[i]\<close>: a negative index counts from the end.\<close>

definition py_index :: "'a list \<Rightarrow> int \<Rightarrow> 'a result" where
  "py_index xs i =
     (let n = int (length xs); k = (if i < 0 then n + i else i)
      in if 0 \<le> k \<and> k < n then Inr (xs ! nat k) else Inl IndexError)"

definition py_index2 :: "'a list list \<Rightarrow> int \<Rightarrow> int \<Rightarrow> 'a result" where
  "py_index2 xss i j = and_then (py_index xss i) (\<lambda>xs. py_index xs j)"

section \<open>The mesh under construction\<close>

text \<open>
  A \<^verbatim>\<open>bmesh\<close> holds the vertices in the order of their creation and the faces in the
  order of theirs.  A vertex is known to the script by the handle that
  \<^verbatim>\<open>bm.verts.new\<close> returns: here its index in the vertex list.  \<^verbatim>\<open>bm.faces.new\<close> raises
  \<^verbatim>\<open>ValueError\<close> on fewer than three vertices, on a vertex used twice, and on a face
  that already exists on the same vertices.
\<close>

type_synonym vec3 = "real \<times> real \<times> real"

record bmesh =
  bm_verts :: "vec3 list"
  bm_faces :: "nat list list"

definition bmesh_new :: bmesh where
  "bmesh_new = \<lparr>bm_verts = [], bm_faces = []\<rparr>"

definition verts_new :: "vec3 \<Rightarrow> bmesh \<Rightarrow> nat \<times> bmesh" where
  "verts_new co bm = (length (bm_verts bm), bm\<lparr>bm_verts := bm_verts bm @ [co]\<rparr>)"

definition face_exists :: "bmesh \<Rightarrow> nat list \<Rightarrow> bool" where
  "face_exists bm vs = list_ex (\<lambda>f. set f = set vs) (bm_faces bm)"

definition faces_new :: "nat list \<Rightarrow> bmesh \<Rightarrow> bmesh result" where
  "faces_new vs bm =
     (if length vs < 3 \<or> \<not> distinct vs \<or> face_exists bm vs then Inl ValueError
      else Inr (bm\<lparr>bm_faces := bm_faces bm @ [vs]\<rparr>))"

section \<open>create_capsule\<close>

text \<open>
  The three inner loops \<^verbatim>\<open>for j in range(segments_ring)\<close> are the same loop, run with
  the radius and the height of the ring: \<open>ring_loop\<close>.  Each outer loop is a recursion
  over the values of its \<^verbatim>\<open>range\<close>, carrying \<^verbatim>\<open>verts_by_ring\<close> and the mesh.
\<close>

fun ring_loop :: "real \<Rightarrow> real \<Rightarrow> int \<Rightarrow> int list \<Rightarrow> nat list \<times> bmesh \<Rightarrow> (nat list \<times> bmesh) result" where
  "ring_loop ring_radius ring_y segments_ring [] (ring_verts, bm) = Inr (ring_verts, bm)"
| "ring_loop ring_radius ring_y segments_ring (j # js) (ring_verts, bm) =
     and_then (truediv (2 * pi * real_of_int j) (real_of_int segments_ring)) (\<lambda>theta.
       let x = ring_radius * cos theta;
           z = ring_radius * sin theta;
           (v, bm') = verts_new (x, ring_y, z) bm
       in ring_loop ring_radius ring_y segments_ring js (ring_verts @ [v], bm'))"

fun bottom_cap_loop :: "real \<Rightarrow> real \<Rightarrow> int \<Rightarrow> int \<Rightarrow> int list \<Rightarrow> nat list list \<times> bmesh \<Rightarrow> (nat list list \<times> bmesh) result" where
  "bottom_cap_loop radius half_length segments_ring cap_rings [] (verts_by_ring, bm) =
     Inr (verts_by_ring, bm)"
| "bottom_cap_loop radius half_length segments_ring cap_rings (i # is) (verts_by_ring, bm) =
     and_then (truediv (real_of_int i) (real_of_int cap_rings)) (\<lambda>q.
       let angle = (pi / 2) * q;
           ring_radius = radius * cos angle;
           ring_y = - half_length - radius * sin angle
       in and_then (ring_loop ring_radius ring_y segments_ring (range1 segments_ring) ([], bm))
            (\<lambda>(ring_verts, bm').
               bottom_cap_loop radius half_length segments_ring cap_rings is
                 (verts_by_ring @ [ring_verts], bm')))"

fun cylinder_loop :: "real \<Rightarrow> real \<Rightarrow> int \<Rightarrow> int \<Rightarrow> int list \<Rightarrow> nat list list \<times> bmesh \<Rightarrow> (nat list list \<times> bmesh) result" where
  "cylinder_loop radius half_length segments_ring rings [] (verts_by_ring, bm) =
     Inr (verts_by_ring, bm)"
| "cylinder_loop radius half_length segments_ring rings (i # is) (verts_by_ring, bm) =
     and_then (truediv (real_of_int i) (real_of_int rings)) (\<lambda>q.
       let total_height = 2 * half_length;
           ring_y = - half_length + total_height * q
       in and_then (ring_loop radius ring_y segments_ring (range1 segments_ring) ([], bm))
            (\<lambda>(ring_verts, bm').
               cylinder_loop radius half_length segments_ring rings is
                 (verts_by_ring @ [ring_verts], bm')))"

fun top_cap_loop :: "real \<Rightarrow> real \<Rightarrow> int \<Rightarrow> int \<Rightarrow> int list \<Rightarrow> nat list list \<times> bmesh \<Rightarrow> (nat list list \<times> bmesh) result" where
  "top_cap_loop radius half_length segments_ring cap_rings [] (verts_by_ring, bm) =
     Inr (verts_by_ring, bm)"
| "top_cap_loop radius half_length segments_ring cap_rings (i # is) (verts_by_ring, bm) =
     and_then (truediv (real_of_int i) (real_of_int cap_rings)) (\<lambda>q.
       let angle = (pi / 2) * q;
           ring_radius = radius * cos angle;
           ring_y = half_length + radius * sin angle
       in and_then (ring_loop ring_radius ring_y segments_ring (range1 segments_ring) ([], bm))
            (\<lambda>(ring_verts, bm').
               top_cap_loop radius half_length segments_ring cap_rings is
                 (verts_by_ring @ [ring_verts], bm')))"

text \<open>The faces between ring \<open>i\<close> and ring \<open>i + 1\<close> (the inner loop), and over all \<open>i\<close>.\<close>

fun quad_row_loop :: "nat list list \<Rightarrow> int \<Rightarrow> int \<Rightarrow> int list \<Rightarrow> bmesh \<Rightarrow> bmesh result" where
  "quad_row_loop verts_by_ring segments_ring i [] bm = Inr bm"
| "quad_row_loop verts_by_ring segments_ring i (j # js) bm =
     and_then (py_mod (j + 1) segments_ring) (\<lambda>j_next.
     and_then (py_index2 verts_by_ring i j) (\<lambda>v1.
     and_then (py_index2 verts_by_ring i j_next) (\<lambda>v2.
     and_then (py_index2 verts_by_ring (i + 1) j_next) (\<lambda>v3.
     and_then (py_index2 verts_by_ring (i + 1) j) (\<lambda>v4.
     and_then (faces_new [v1, v2, v3, v4] bm) (\<lambda>bm'.
       quad_row_loop verts_by_ring segments_ring i js bm'))))))"

fun quad_loop :: "nat list list \<Rightarrow> int \<Rightarrow> int list \<Rightarrow> bmesh \<Rightarrow> bmesh result" where
  "quad_loop verts_by_ring segments_ring [] bm = Inr bm"
| "quad_loop verts_by_ring segments_ring (i # is) bm =
     and_then (quad_row_loop verts_by_ring segments_ring i (range1 segments_ring) bm) (\<lambda>bm'.
       quad_loop verts_by_ring segments_ring is bm')"

fun bottom_fan_loop :: "nat list list \<Rightarrow> nat \<Rightarrow> int \<Rightarrow> int list \<Rightarrow> bmesh \<Rightarrow> bmesh result" where
  "bottom_fan_loop verts_by_ring bottom_pole segments_ring [] bm = Inr bm"
| "bottom_fan_loop verts_by_ring bottom_pole segments_ring (j # js) bm =
     and_then (py_mod (j + 1) segments_ring) (\<lambda>j_next.
     and_then (py_index2 verts_by_ring 0 j_next) (\<lambda>a.
     and_then (py_index2 verts_by_ring 0 j) (\<lambda>b.
     and_then (faces_new [bottom_pole, a, b] bm) (\<lambda>bm'.
       bottom_fan_loop verts_by_ring bottom_pole segments_ring js bm'))))"

fun top_fan_loop :: "nat list \<Rightarrow> nat \<Rightarrow> int \<Rightarrow> int list \<Rightarrow> bmesh \<Rightarrow> bmesh result" where
  "top_fan_loop top_ring top_pole segments_ring [] bm = Inr bm"
| "top_fan_loop top_ring top_pole segments_ring (j # js) bm =
     and_then (py_mod (j + 1) segments_ring) (\<lambda>j_next.
     and_then (py_index top_ring j) (\<lambda>a.
     and_then (py_index top_ring j_next) (\<lambda>b.
     and_then (faces_new [top_pole, a, b] bm) (\<lambda>bm'.
       top_fan_loop top_ring top_pole segments_ring js bm'))))"

text \<open>
  The mesh datablock that \<^verbatim>\<open>bm.to_mesh(mesh)\<close> fills: the name given to
  \<^verbatim>\<open>bpy.data.meshes.new\<close>, the vertices and the polygons.
\<close>

record mesh =
  mesh_name :: string
  vertices :: "vec3 list"
  polygons :: "nat list list"

definition to_mesh :: "string \<Rightarrow> bmesh \<Rightarrow> mesh" where
  "to_mesh name bm = \<lparr>mesh_name = name, vertices = bm_verts bm, polygons = bm_faces bm\<rparr>"

definition create_capsule :: "string \<Rightarrow> real \<Rightarrow> real \<Rightarrow> int \<Rightarrow> int \<Rightarrow> int \<Rightarrow> mesh result" where
  "create_capsule name radius half_length segments_ring segments_height segments_cap =
     (let bm = bmesh_new;
          rings = segments_height;
          cap_rings = segments_cap
      in
      and_then (bottom_cap_loop radius half_length segments_ring cap_rings
                  (range_down cap_rings 0) ([], bm)) (\<lambda>st1.
      and_then (cylinder_loop radius half_length segments_ring rings
                  (range1 (rings + 1)) st1) (\<lambda>st2.
      and_then (top_cap_loop radius half_length segments_ring cap_rings
                  (range2 1 (cap_rings + 1)) st2) (\<lambda>(verts_by_ring, bm3).
        let (bottom_pole, bm4) = verts_new (0, - half_length - radius, 0) bm3;
            (top_pole, bm5) = verts_new (0, half_length + radius, 0) bm4
        in
        and_then (quad_loop verts_by_ring segments_ring
                    (range1 (int (length verts_by_ring) - 1)) bm5) (\<lambda>bm6.
        and_then (bottom_fan_loop verts_by_ring bottom_pole segments_ring
                    (range1 segments_ring) bm6) (\<lambda>bm7.
        and_then (py_index verts_by_ring (- 1)) (\<lambda>top_ring.
        and_then (top_fan_loop top_ring top_pole segments_ring
                    (range1 segments_ring) bm7) (\<lambda>bm8.
          Inr (to_mesh name bm8)))))))))"

section \<open>Configuration\<close>

text \<open>The module-level constants, with the decimal literals read as the rationals they denote.\<close>

definition TORSO_HEIGHT :: real where "TORSO_HEIGHT = 0.70"
definition TORSO_RADIUS :: real where "TORSO_RADIUS = 0.32"
definition HEAD_RADIUS :: real where "HEAD_RADIUS = 0.26"
definition HEAD_BLEND_FACTOR :: real where "HEAD_BLEND_FACTOR = 0.6"

definition UPPER_ARM_LENGTH :: real where "UPPER_ARM_LENGTH = 0.40"
definition UPPER_ARM_RADIUS :: real where "UPPER_ARM_RADIUS = 0.10"
definition FOREARM_LENGTH :: real where "FOREARM_LENGTH = 0.36"
definition FOREARM_RADIUS :: real where "FOREARM_RADIUS = 0.09"

definition THIGH_LENGTH :: real where "THIGH_LENGTH = 0.44"
definition THIGH_RADIUS :: real where "THIGH_RADIUS = 0.11"
definition SHIN_LENGTH :: real where "SHIN_LENGTH = 0.44"
definition SHIN_RADIUS :: real where "SHIN_RADIUS = 0.085"

definition SHOULDER_Y :: real where "SHOULDER_Y = TORSO_HEIGHT * 0.35"
definition SHOULDER_X :: real where "SHOULDER_X = TORSO_RADIUS + 0.04"
definition HIP_X :: real where "HIP_X = 0.12"
definition HIP_Y :: real where "HIP_Y = - TORSO_HEIGHT * 0.5"

definition SUBDIV_LEVEL :: int where "SUBDIV_LEVEL = 2"

definition OUTPUT_PATH :: string where
  "OUTPUT_PATH = ''apps/client/public/models/bean_character.glb''"

section \<open>The host's scene\<close>

text \<open>
  The script drives the host through \<^verbatim>\<open>bpy\<close>.  The state below keeps what
  \<^verbatim>\<open>create_armature\<close> reads and writes: which objects exist, their names, kinds and
  bones (with the attributes a new object starts with), and the active object.  An object
  is known to the script by a handle.  A name is kept as the script gives it: the host
  renames only on a clash.
\<close>

datatype ob_kind = MESH | ARMATURE | OTHER

record edit_bone =
  bone_name :: string
  bone_head :: vec3
  bone_tail :: vec3
  bone_parent :: "nat option"
  use_connect :: bool

record object =
  ob_name :: string
  ob_kind :: ob_kind
  ob_selected :: bool
  ob_materials :: "string list"
  ob_modifiers :: "(string \<times> string) list"
  ob_parent :: "nat option"
  ob_location :: vec3
  ob_rotation_euler :: vec3
  ob_bones :: "edit_bone list"

record scene =
  sc_objects :: "(nat \<times> object) list"
  sc_next :: nat
  sc_active :: "nat option"

definition has_object :: "scene \<Rightarrow> nat \<Rightarrow> bool" where
  "has_object sc h = (h \<in> fst ` set (sc_objects sc))"

definition get_object :: "nat \<Rightarrow> scene \<Rightarrow> object result" where
  "get_object h sc =
     (case map_of (sc_objects sc) h of None \<Rightarrow> Inl ReferenceError | Some ob \<Rightarrow> Inr ob)"

definition update_object :: "nat \<Rightarrow> (object \<Rightarrow> object) \<Rightarrow> scene \<Rightarrow> scene result" where
  "update_object h f sc =
     (if has_object sc h
      then Inr (sc\<lparr>sc_objects := map (\<lambda>(k, ob). if k = h then (k, f ob) else (k, ob)) (sc_objects sc)\<rparr>)
      else Inl ReferenceError)"

text \<open>
  \<^verbatim>\<open>bpy.data.objects.new(name, data)\<close> followed by \<^verbatim>\<open>collection.objects.link(obj)\<close>: a new
  object of the kind of its data, not selected, with no material, modifier or parent.
\<close>

definition objects_new :: "string \<Rightarrow> ob_kind \<Rightarrow> scene \<Rightarrow> nat \<times> scene" where
  "objects_new name kind sc =
     (sc_next sc,
      sc\<lparr>sc_objects := sc_objects sc @
           [(sc_next sc,
             \<lparr>ob_name = name, ob_kind = kind, ob_selected = False, ob_materials = [],
              ob_modifiers = [], ob_parent = None, ob_location = (0, 0, 0),
              ob_rotation_euler = (0, 0, 0), ob_bones = []\<rparr>)],
         sc_next := Suc (sc_next sc)\<rparr>)"

definition set_active :: "nat \<Rightarrow> scene \<Rightarrow> scene" where
  "set_active h sc = sc\<lparr>sc_active := Some h\<rparr>"

text \<open>
  An operator that works on the active object raises when there is none.
\<close>

definition active_object :: "scene \<Rightarrow> (nat \<times> object) result" where
  "active_object sc =
     (case sc_active sc of None \<Rightarrow> Inl RuntimeError
      | Some a \<Rightarrow> (case map_of (sc_objects sc) a of None \<Rightarrow> Inl RuntimeError
                   | Some ob \<Rightarrow> Inr (a, ob)))"

text \<open>
  \<^verbatim>\<open>bpy.ops.object.mode_set\<close> needs an active object and changes nothing that this state
  keeps.
\<close>

definition object_operator :: "scene \<Rightarrow> scene result" where
  "object_operator sc = and_then (active_object sc) (\<lambda>_. Inr sc)"

definition mode_set :: "string \<Rightarrow> scene \<Rightarrow> scene result" where
  "mode_set mode sc = object_operator sc"

text \<open>The edit bones of an armature object; a bone is known by its index among them.\<close>

definition edit_bones_new :: "nat \<Rightarrow> string \<Rightarrow> scene \<Rightarrow> (nat \<times> scene) result" where
  "edit_bones_new arm name sc =
     and_then (get_object arm sc) (\<lambda>ob.
     and_then (update_object arm
                 (\<lambda>ob. ob\<lparr>ob_bones := ob_bones ob @
                    [\<lparr>bone_name = name, bone_head = (0, 0, 0), bone_tail = (0, 0, 0),
                      bone_parent = None, use_connect = False\<rparr>]\<rparr>) sc) (\<lambda>sc'.
       Inr (length (ob_bones ob), sc')))"

definition get_bone :: "nat \<Rightarrow> nat \<Rightarrow> scene \<Rightarrow> edit_bone result" where
  "get_bone arm b sc =
     and_then (get_object arm sc) (\<lambda>ob.
       if b < length (ob_bones ob) then Inr (ob_bones ob ! b) else Inl ReferenceError)"

definition update_bone :: "nat \<Rightarrow> nat \<Rightarrow> (edit_bone \<Rightarrow> edit_bone) \<Rightarrow> scene \<Rightarrow> scene result" where
  "update_bone arm b f sc =
     and_then (get_bone arm b sc) (\<lambda>bone.
       update_object arm (\<lambda>ob. ob\<lparr>ob_bones := (ob_bones ob)[b := f bone]\<rparr>) sc)"

definition set_head :: "nat \<Rightarrow> nat \<Rightarrow> vec3 \<Rightarrow> scene \<Rightarrow> scene result" where
  "set_head arm b v sc = update_bone arm b (\<lambda>bone. bone\<lparr>bone_head := v\<rparr>) sc"

definition set_tail :: "nat \<Rightarrow> nat \<Rightarrow> vec3 \<Rightarrow> scene \<Rightarrow> scene result" where
  "set_tail arm b v sc = update_bone arm b (\<lambda>bone. bone\<lparr>bone_tail := v\<rparr>) sc"

definition set_parent :: "nat \<Rightarrow> nat \<Rightarrow> nat \<Rightarrow> scene \<Rightarrow> scene result" where
  "set_parent arm b p sc = update_bone arm b (\<lambda>bone. bone\<lparr>bone_parent := Some p\<rparr>) sc"

definition set_use_connect :: "nat \<Rightarrow> nat \<Rightarrow> bool \<Rightarrow> scene \<Rightarrow> scene result" where
  "set_use_connect arm b c sc = update_bone arm b (\<lambda>bone. bone\<lparr>use_connect := c\<rparr>) sc"

section \<open>os.path\<close>

text \<open>
  The functions of \<^verbatim>\<open>os.path\<close> that \<^verbatim>\<open>main\<close> calls to find its output path, as \<^verbatim>\<open>posixpath\<close>
  defines them on strings: \<^verbatim>\<open>str.split\<close> and \<^verbatim>\<open>str.join\<close> on the separator, \<^verbatim>\<open>join\<close>,
  \<^verbatim>\<open>normpath\<close>, \<^verbatim>\<open>abspath\<close> (with the current directory as an argument) and \<^verbatim>\<open>dirname\<close>.
\<close>

definition sep :: char where
  "sep = CHR ''/''"

fun split_sep :: "string \<Rightarrow> string list" where
  "split_sep [] = [[]]"
| "split_sep (c # cs) =
     (if c = sep then [] # split_sep cs
      else (case split_sep cs of [] \<Rightarrow> [[c]] | w # ws \<Rightarrow> (c # w) # ws))"

fun join_sep :: "string list \<Rightarrow> string" where
  "join_sep [] = []"
| "join_sep [w] = w"
| "join_sep (w # ws) = w @ [sep] @ join_sep ws"

definition isabs :: "string \<Rightarrow> bool" where
  "isabs s = (case s of [] \<Rightarrow> False | c # _ \<Rightarrow> c = sep)"

definition path_join :: "string \<Rightarrow> string \<Rightarrow> string" where
  "path_join a b =
     (if isabs b then b
      else if a = [] \<or> last a = sep then a @ b
      else a @ [sep] @ b)"

definition initial_slashes :: "string \<Rightarrow> nat" where
  "initial_slashes path =
     (if \<not> isabs path then 0
      else if take 2 path = [sep, sep] \<and> take 3 path \<noteq> [sep, sep, sep] then 2
      else 1)"

fun normpath_loop :: "nat \<Rightarrow> string list \<Rightarrow> string list \<Rightarrow> string list" where
  "normpath_loop slashes [] new_comps = new_comps"
| "normpath_loop slashes (part # comps) new_comps =
     (if part = [] \<or> part = ''.'' then normpath_loop slashes comps new_comps
      else if part \<noteq> ''..'' \<or> (slashes = 0 \<and> new_comps = []) \<or>
              (new_comps \<noteq> [] \<and> last new_comps = ''..'')
        then normpath_loop slashes comps (new_comps @ [part])
      else if new_comps \<noteq> [] then normpath_loop slashes comps (butlast new_comps)
      else normpath_loop slashes comps new_comps)"

definition normpath :: "string \<Rightarrow> string" where
  "normpath path =
     (if path = [] then ''.''
      else
        let slashes = initial_slashes path;
            comps = normpath_loop slashes (split_sep path) [];
            path' = replicate slashes sep @ join_sep comps
        in if path' = [] then ''.'' else path')"

definition abspath :: "string \<Rightarrow> string \<Rightarrow> string" where
  "abspath getcwd path = normpath (if isabs path then path else path_join getcwd path)"

definition dirname :: "string \<Rightarrow> string" where
  "dirname p =
     (let head = rev (dropWhile (\<lambda>c. c \<noteq> sep) (rev p))
      in if head \<noteq> [] \<and> head \<noteq> replicate (length head) sep
         then rev (dropWhile (\<lambda>c. c = sep) (rev head))
         else head)"

section \<open>The script\<close>

text \<open>
  \<^verbatim>\<open>create_armature\<close>, one definition for each of its commented sections (the root bone,
  the head bone and the four limb chains).  Each assignment to a bone is the assignment
  of a field; the host also moves the head of a bone that is made connected onto the tail
  of its parent, which is where the script has put it already.
\<close>

definition root_bone_section :: "nat \<Rightarrow> scene \<Rightarrow> (nat \<times> scene) result" where
  "root_bone_section armature_obj sc =
     and_then (edit_bones_new armature_obj ''torso'' sc) (\<lambda>(torso, sc).
     and_then (set_head armature_obj torso (0, 0, 0) sc) (\<lambda>sc.
     and_then (set_tail armature_obj torso (0, TORSO_HEIGHT * 0.5, 0) sc) (\<lambda>sc.
     and_then (set_use_connect armature_obj torso False sc) (\<lambda>sc.
       Inr (torso, sc)))))"

definition head_bone_section :: "nat \<Rightarrow> nat \<Rightarrow> scene \<Rightarrow> scene result" where
  "head_bone_section armature_obj torso sc =
     and_then (edit_bones_new armature_obj ''head'' sc) (\<lambda>(head, sc).
     let head_base_y = TORSO_HEIGHT * 0.5 in
     and_then (set_head armature_obj head (0, head_base_y, 0) sc) (\<lambda>sc.
     and_then (set_tail armature_obj head (0, head_base_y + HEAD_RADIUS * 2, 0) sc) (\<lambda>sc.
     and_then (set_parent armature_obj head torso sc) (\<lambda>sc.
       set_use_connect armature_obj head True sc))))"

definition left_arm_section :: "nat \<Rightarrow> nat \<Rightarrow> scene \<Rightarrow> scene result" where
  "left_arm_section armature_obj torso sc =
     and_then (edit_bones_new armature_obj ''l_upperArm'' sc) (\<lambda>(l_upper, sc).
     and_then (set_head armature_obj l_upper (- SHOULDER_X, SHOULDER_Y, 0) sc) (\<lambda>sc.
     and_then (set_tail armature_obj l_upper (- (SHOULDER_X + UPPER_ARM_LENGTH), SHOULDER_Y, 0) sc) (\<lambda>sc.
     and_then (set_parent armature_obj l_upper torso sc) (\<lambda>sc.
     and_then (set_use_connect armature_obj l_upper False sc) (\<lambda>sc.
     and_then (edit_bones_new armature_obj ''l_foreArm'' sc) (\<lambda>(l_fore, sc).
     and_then (get_bone armature_obj l_upper sc) (\<lambda>l_upper_bone.
     and_then (set_head armature_obj l_fore (bone_tail l_upper_bone) sc) (\<lambda>sc.
     and_then (set_tail armature_obj l_fore
                 (- (SHOULDER_X + UPPER_ARM_LENGTH + FOREARM_LENGTH), SHOULDER_Y, 0) sc) (\<lambda>sc.
     and_then (set_parent armature_obj l_fore l_upper sc) (\<lambda>sc.
       set_use_connect armature_obj l_fore True sc))))))))))"

definition right_arm_section :: "nat \<Rightarrow> nat \<Rightarrow> scene \<Rightarrow> scene result" where
  "right_arm_section armature_obj torso sc =
     and_then (edit_bones_new armature_obj ''r_upperArm'' sc) (\<lambda>(r_upper, sc).
     and_then (set_head armature_obj r_upper (SHOULDER_X, SHOULDER_Y, 0) sc) (\<lambda>sc.
     and_then (set_tail armature_obj r_upper (SHOULDER_X + UPPER_ARM_LENGTH, SHOULDER_Y, 0) sc) (\<lambda>sc.
     and_then (set_parent armature_obj r_upper torso sc) (\<lambda>sc.
     and_then (set_use_connect armature_obj r_upper False sc) (\<lambda>sc.
     and_then (edit_bones_new armature_obj ''r_foreArm'' sc) (\<lambda>(r_fore, sc).
     and_then (get_bone armature_obj r_upper sc) (\<lambda>r_upper_bone.
     and_then (set_head armature_obj r_fore (bone_tail r_upper_bone) sc) (\<lambda>sc.
     and_then (set_tail armature_obj r_fore
                 (SHOULDER_X + UPPER_ARM_LENGTH + FOREARM_LENGTH, SHOULDER_Y, 0) sc) (\<lambda>sc.
     and_then (set_parent armature_obj r_fore r_upper sc) (\<lambda>sc.
       set_use_connect armature_obj r_fore True sc))))))))))"

definition left_leg_section :: "nat \<Rightarrow> nat \<Rightarrow> scene \<Rightarrow> scene result" where
  "left_leg_section armature_obj torso sc =
     and_then (edit_bones_new armature_obj ''l_thigh'' sc) (\<lambda>(l_thigh, sc).
     and_then (set_head armature_obj l_thigh (- HIP_X, HIP_Y, 0) sc) (\<lambda>sc.
     and_then (set_tail armature_obj l_thigh (- HIP_X, HIP_Y - THIGH_LENGTH, 0) sc) (\<lambda>sc.
     and_then (set_parent armature_obj l_thigh torso sc) (\<lambda>sc.
     and_then (set_use_connect armature_obj l_thigh False sc) (\<lambda>sc.
     and_then (edit_bones_new armature_obj ''l_shin'' sc) (\<lambda>(l_shin, sc).
     and_then (get_bone armature_obj l_thigh sc) (\<lambda>l_thigh_bone.
     and_then (set_head armature_obj l_shin (bone_tail l_thigh_bone) sc) (\<lambda>sc.
     and_then (set_tail armature_obj l_shin (- HIP_X, HIP_Y - THIGH_LENGTH - SHIN_LENGTH, 0) sc) (\<lambda>sc.
     and_then (set_parent armature_obj l_shin l_thigh sc) (\<lambda>sc.
       set_use_connect armature_obj l_shin True sc))))))))))"

definition right_leg_section :: "nat \<Rightarrow> nat \<Rightarrow> scene \<Rightarrow> scene result" where
  "right_leg_section armature_obj torso sc =
     and_then (edit_bones_new armature_obj ''r_thigh'' sc) (\<lambda>(r_thigh, sc).
     and_then (set_head armature_obj r_thigh (HIP_X, HIP_Y, 0) sc) (\<lambda>sc.
     and_then (set_tail armature_obj r_thigh (HIP_X, HIP_Y - THIGH_LENGTH, 0) sc) (\<lambda>sc.
     and_then (set_parent armature_obj r_thigh torso sc) (\<lambda>sc.
     and_then (set_use_connect armature_obj r_thigh False sc) (\<lambda>sc.
     and_then (edit_bones_new armature_obj ''r_shin'' sc) (\<lambda>(r_shin, sc).
     and_then (get_bone armature_obj r_thigh sc) (\<lambda>r_thigh_bone.
     and_then (set_head armature_obj r_shin (bone_tail r_thigh_bone) sc) (\<lambda>sc.
     and_then (set_tail armature_obj r_shin (HIP_X, HIP_Y - THIGH_LENGTH - SHIN_LENGTH, 0) sc) (\<lambda>sc.
     and_then (set_parent armature_obj r_shin r_thigh sc) (\<lambda>sc.
       set_use_connect armature_obj r_shin True sc))))))))))"

definition create_armature :: "scene \<Rightarrow> (nat \<times> scene) result" where
  "create_armature sc =
     (let (armature_obj, sc) = objects_new ''BeanArmature'' ARMATURE sc in
      and_then (mode_set ''EDIT'' (set_active armature_obj sc)) (\<lambda>sc.
      and_then (root_bone_section armature_obj sc) (\<lambda>(torso, sc).
      and_then (head_bone_section armature_obj torso sc) (\<lambda>sc.
      and_then (left_arm_section armature_obj torso sc) (\<lambda>sc.
      and_then (right_arm_section armature_obj torso sc) (\<lambda>sc.
      and_then (left_leg_section armature_obj torso sc) (\<lambda>sc.
      and_then (right_leg_section armature_obj torso sc) (\<lambda>sc.
      and_then (mode_set ''OBJECT'' sc) (\<lambda>sc.
        Inr (armature_obj, sc))))))))))"

text \<open>
  What \<^verbatim>\<open>main\<close> reads from its surroundings: whether \<^verbatim>\<open>apps/client/public\<close> is a directory,
  the current directory, and the script's own \<^verbatim>\<open>__file__\<close>; and the output path that its
  first statement computes from them and that it hands on unchanged.
\<close>

record environment =
  isdir_public :: bool
  getcwd :: string
  script_file :: string

definition main_output_path :: "environment \<Rightarrow> string" where
  "main_output_path env =
     (if isdir_public env then abspath (getcwd env) OUTPUT_PATH
      else
        let script_dir = dirname (abspath (getcwd env) (script_file env));
            project_root = dirname script_dir
        in path_join project_root OUTPUT_PATH)"

section \<open>The capsule in closed form\<close>

text \<open>
  What the claims say of a capsule, in the words of the specification, for \<open>S\<close> segments
  around a ring, \<open>H\<close> height segments and \<open>C\<close> cap rings.  These definitions are compared
  with what \<open>create_capsule\<close> computes; none of them is used by it.

  The point \<open>j\<close> of a ring of a given radius and height; the handles of \<open>k\<close> rings of \<open>S\<close>
  vertices created one after the other from the handle \<open>n\<close> on; and the three kinds of
  ring, by the index of the loop that makes them.
\<close>

definition ring_point :: "real \<Rightarrow> real \<Rightarrow> nat \<Rightarrow> nat \<Rightarrow> vec3" where
  "ring_point rr y S j = (rr * cos (2 * pi * real j / real S), y, rr * sin (2 * pi * real j / real S))"

fun chunks :: "nat \<Rightarrow> nat \<Rightarrow> nat \<Rightarrow> nat list list" where
  "chunks n S 0 = []"
| "chunks n S (Suc k) = [n..<n + S] # chunks (n + S) S k"

definition bottom_cap_ring :: "real \<Rightarrow> real \<Rightarrow> nat \<Rightarrow> nat \<Rightarrow> nat \<Rightarrow> vec3 list" where
  "bottom_cap_ring radius half_length S C i =
     map (ring_point (radius * cos ((pi / 2) * (real i / real C)))
            (- half_length - radius * sin ((pi / 2) * (real i / real C))) S) [0..<S]"

definition cylinder_ring :: "real \<Rightarrow> real \<Rightarrow> nat \<Rightarrow> nat \<Rightarrow> nat \<Rightarrow> vec3 list" where
  "cylinder_ring radius half_length S H i =
     map (ring_point radius (- half_length + 2 * half_length * (real i / real H)) S) [0..<S]"

definition top_cap_ring :: "real \<Rightarrow> real \<Rightarrow> nat \<Rightarrow> nat \<Rightarrow> nat \<Rightarrow> vec3 list" where
  "top_cap_ring radius half_length S C i =
     map (ring_point (radius * cos ((pi / 2) * (real i / real C)))
            (half_length + radius * sin ((pi / 2) * (real i / real C))) S) [0..<S]"

text \<open>
  The faces.  \<open>ring_vertex S i j\<close> is the handle of vertex \<open>j\<close> of ring \<open>i\<close> (rings counted
  from the bottom), \<open>next_around\<close> its neighbour around the ring; a quadrilateral joins two
  neighbours of ring \<open>i\<close> to the same two of ring \<open>i + 1\<close>, a triangle a pole to two
  neighbours of the first or the last ring.  \<open>capsule_faces S R\<close> lists the faces of a
  capsule of \<open>R\<close> rings, whose poles have the handles \<open>R * S\<close> and \<open>R * S + 1\<close>;
  \<open>add_faces\<close> makes the faces of a list one after the other.
\<close>

fun add_faces :: "nat list list \<Rightarrow> bmesh \<Rightarrow> bmesh result" where
  "add_faces [] bm = Inr bm"
| "add_faces (f # fs) bm = and_then (faces_new f bm) (add_faces fs)"

definition ring_vertex :: "nat \<Rightarrow> nat \<Rightarrow> nat \<Rightarrow> nat" where
  "ring_vertex S i j = i * S + j"

definition next_around :: "nat \<Rightarrow> nat \<Rightarrow> nat" where
  "next_around S j = (j + 1) mod S"

definition quad_face :: "nat \<Rightarrow> nat \<Rightarrow> nat \<Rightarrow> nat list" where
  "quad_face S i j =
     [ring_vertex S i j, ring_vertex S i (next_around S j),
      ring_vertex S (i + 1) (next_around S j), ring_vertex S (i + 1) j]"

definition bottom_face :: "nat \<Rightarrow> nat \<Rightarrow> nat \<Rightarrow> nat list" where
  "bottom_face S bottom_pole j = [bottom_pole, ring_vertex S 0 (next_around S j), ring_vertex S 0 j]"

definition top_face :: "nat \<Rightarrow> nat \<Rightarrow> nat \<Rightarrow> nat \<Rightarrow> nat list" where
  "top_face S last_ring top_pole j =
     [top_pole, ring_vertex S last_ring j, ring_vertex S last_ring (next_around S j)]"

definition capsule_faces :: "nat \<Rightarrow> nat \<Rightarrow> nat list list" where
  "capsule_faces S R =
     map (\<lambda>(i, j). quad_face S i j) (List.product [0..<R - 1] [0..<S]) @
     map (bottom_face S (R * S)) [0..<S] @
     map (top_face S (R - 1) (R * S + 1)) [0..<S]"

text \<open>
  The vertices in the order of their creation, and ring \<open>i\<close> counted from the bottom.
\<close>

definition capsule_vertices :: "real \<Rightarrow> real \<Rightarrow> nat \<Rightarrow> nat \<Rightarrow> nat \<Rightarrow> vec3 list" where
  "capsule_vertices radius half_length S H C =
     concat (map (bottom_cap_ring radius half_length S C) (rev [1..<Suc C])) @
     concat (map (cylinder_ring radius half_length S H) [0..<Suc H]) @
     concat (map (top_cap_ring radius half_length S C) [1..<Suc C]) @
     [(0, - half_length - radius, 0), (0, half_length + radius, 0)]"

definition capsule_ring :: "real \<Rightarrow> real \<Rightarrow> nat \<Rightarrow> nat \<Rightarrow> nat \<Rightarrow> nat \<Rightarrow> vec3 list" where
  "capsule_ring radius half_length S H C i =
     (if i < C then bottom_cap_ring radius half_length S C (C - i)
      else if i \<le> C + H then cylinder_ring radius half_length S H (i - C)
      else top_cap_ring radius half_length S C (i - C - H))"

text \<open>
  A point on the surface of the capsule about the Y axis: on the cylinder between the
  two cap centres, on the sphere about the nearer centre beyond them.
\<close>

definition on_capsule_surface :: "real \<Rightarrow> real \<Rightarrow> vec3 \<Rightarrow> bool" where
  "on_capsule_surface radius half_length v =
     (case v of (x, y, z) \<Rightarrow>
        if \<bar>y\<bar> \<le> half_length then x\<^sup>2 + z\<^sup>2 = radius\<^sup>2
        else if half_length < y then x\<^sup>2 + (y - half_length)\<^sup>2 + z\<^sup>2 = radius\<^sup>2
        else x\<^sup>2 + (y + half_length)\<^sup>2 + z\<^sup>2 = radius\<^sup>2)"

definition y_of :: "vec3 \<Rightarrow> real" where
  "y_of v = (case v of (x, y, z) \<Rightarrow> y)"

text \<open>The area of a triangular face, from the positions of its three corners.\<close>

definition vsub :: "vec3 \<Rightarrow> vec3 \<Rightarrow> vec3" where
  "vsub a b = (case a of (ax, ay, az) \<Rightarrow> case b of (bx, by, bz) \<Rightarrow> (ax - bx, ay - by, az - bz))"

definition cross :: "vec3 \<Rightarrow> vec3 \<Rightarrow> vec3" where
  "cross a b = (case a of (ax, ay, az) \<Rightarrow> case b of (bx, by, bz) \<Rightarrow>
                  (ay * bz - az * by, az * bx - ax * bz, ax * by - ay * bx))"

definition vlength :: "vec3 \<Rightarrow> real" where
  "vlength a = (case a of (x, y, z) \<Rightarrow> sqrt (x\<^sup>2 + y\<^sup>2 + z\<^sup>2))"

definition triangle_area :: "vec3 \<Rightarrow> vec3 \<Rightarrow> vec3 \<Rightarrow> real" where
  "triangle_area a b c = vlength (cross (vsub b a) (vsub c a)) / 2"

definition face_area :: "vec3 list \<Rightarrow> nat list \<Rightarrow> real" where
  "face_area vs f = triangle_area (vs ! (f ! 0)) (vs ! (f ! 1)) (vs ! (f ! 2))"

section \<open>The skeleton in closed form\<close>

text \<open>
  The bones that the script's docstring draws, in the order of their creation, each with
  the index of its parent; the name of a bone's parent; the names on the way from a bone
  to the root; whether a bone starts where its parent ends; and the scene with nothing
  in it.
\<close>

definition bean_bones :: "edit_bone list" where
  "bean_bones =
     [\<lparr>bone_name = ''torso'', bone_head = (0, 0, 0), bone_tail = (0, TORSO_HEIGHT * 0.5, 0),
       bone_parent = None, use_connect = False\<rparr>,
      \<lparr>bone_name = ''head'', bone_head = (0, TORSO_HEIGHT * 0.5, 0),
       bone_tail = (0, TORSO_HEIGHT * 0.5 + HEAD_RADIUS * 2, 0),
       bone_parent = Some 0, use_connect = True\<rparr>,
      \<lparr>bone_name = ''l_upperArm'', bone_head = (- SHOULDER_X, SHOULDER_Y, 0),
       bone_tail = (- (SHOULDER_X + UPPER_ARM_LENGTH), SHOULDER_Y, 0),
       bone_parent = Some 0, use_connect = False\<rparr>,
      \<lparr>bone_name = ''l_foreArm'', bone_head = (- (SHOULDER_X + UPPER_ARM_LENGTH), SHOULDER_Y, 0),
       bone_tail = (- (SHOULDER_X + UPPER_ARM_LENGTH + FOREARM_LENGTH), SHOULDER_Y, 0),
       bone_parent = Some 2, use_connect = True\<rparr>,
      \<lparr>bone_name = ''r_upperArm'', bone_head = (SHOULDER_X, SHOULDER_Y, 0),
       bone_tail = (SHOULDER_X + UPPER_ARM_LENGTH, SHOULDER_Y, 0),
       bone_parent = Some 0, use_connect = False\<rparr>,
      \<lparr>bone_name = ''r_foreArm'', bone_head = (SHOULDER_X + UPPER_ARM_LENGTH, SHOULDER_Y, 0),
       bone_tail = (SHOULDER_X + UPPER_ARM_LENGTH + FOREARM_LENGTH, SHOULDER_Y, 0),
       bone_parent = Some 4, use_connect = True\<rparr>,
      \<lparr>bone_name = ''l_thigh'', bone_head = (- HIP_X, HIP_Y, 0),
       bone_tail = (- HIP_X, HIP_Y - THIGH_LENGTH, 0),
       bone_parent = Some 0, use_connect = False\<rparr>,
      \<lparr>bone_name = ''l_shin'', bone_head = (- HIP_X, HIP_Y - THIGH_LENGTH, 0),
       bone_tail = (- HIP_X, HIP_Y - THIGH_LENGTH - SHIN_LENGTH, 0),
       bone_parent = Some 6, use_connect = True\<rparr>,
      \<lparr>bone_name = ''r_thigh'', bone_head = (HIP_X, HIP_Y, 0),
       bone_tail = (HIP_X, HIP_Y - THIGH_LENGTH, 0),
       bone_parent = Some 0, use_connect = False\<rparr>,
      \<lparr>bone_name = ''r_shin'', bone_head = (HIP_X, HIP_Y - THIGH_LENGTH, 0),
       bone_tail = (HIP_X, HIP_Y - THIGH_LENGTH - SHIN_LENGTH, 0),
       bone_parent = Some 8, use_connect = True\<rparr>]"

definition parent_name :: "edit_bone list \<Rightarrow> edit_bone \<Rightarrow> string option" where
  "parent_name bones b = map_option (\<lambda>p. bone_name (bones ! p)) (bone_parent b)"

fun path_to_root :: "edit_bone list \<Rightarrow> nat \<Rightarrow> nat \<Rightarrow> string list" where
  "path_to_root bones 0 b = []"
| "path_to_root bones (Suc n) b =
     (if b < length bones
      then bone_name (bones ! b) #
           (case bone_parent (bones ! b) of None \<Rightarrow> [] | Some p \<Rightarrow> path_to_root bones n p)
      else [])"

definition connected_to_parent :: "edit_bone list \<Rightarrow> edit_bone \<Rightarrow> bool" where
  "connected_to_parent bones b =
     (case bone_parent b of None \<Rightarrow> False
      | Some p \<Rightarrow> p < length bones \<and> bone_head b = bone_tail (bones ! p))"

definition empty_scene :: scene where
  "empty_scene = \<lparr>sc_objects = [], sc_next = 0, sc_active = None\<rparr>"

text \<open>The components of \<^verbatim>\<open>OUTPUT_PATH\<close>.\<close>

definition output_components :: "string list" where
  "output_components = [''apps'', ''client'', ''public'', ''models'', ''bean_character.glb'']"

section \<open>What create_capsule computes\<close>

lemma and_then_Inr [simp]: "and_then (Inr x) f = f x"
  by (simp add: and_then_def)

lemma and_then_Inl [simp]: "and_then (Inl e) f = Inl e"
  by (simp add: and_then_def)

lemma upto_int_upt: "[int a..int b - 1] = map int [a..<b]"
proof (induction b)
  case 0
  then show ?case by simp
next
  case (Suc b)
  show ?case
  proof (cases "a \<le> b")
    case True
    then have "[int a..int (Suc b) - 1] = [int a..int b - 1] @ [int b]"
      using upto_rec2 [of "int a" "int b"] by simp
    with Suc True show ?thesis by simp
  next
    case False
    then show ?thesis by simp
  qed
qed

lemma range1_int: "range1 (int n) = map int [0..<n]"
  using upto_int_upt [of 0 n] by (simp add: range1_def)

lemma range2_int: "range2 1 (int c + 1) = map int [1..<Suc c]"
  using upto_int_upt [of 1 "Suc c"] by (simp add: range2_def)

lemma range_down_int: "range_down (int c) 0 = map int (rev [1..<Suc c])"
  using upto_int_upt [of 1 "Suc c"] by (simp add: range_down_def rev_map)

lemma upt_add_Suc: "[n..<n + Suc k] = n # [Suc n..<Suc n + k]"
  by (simp add: upt_conv_Cons)

lemma ring_loop_eq:
  "S \<noteq> 0 \<Longrightarrow>
   ring_loop rr y (int S) (map int js) (rv, bm) =
     Inr (rv @ [length (bm_verts bm)..<length (bm_verts bm) + length js],
          bm\<lparr>bm_verts := bm_verts bm @ map (ring_point rr y S) js\<rparr>)"
proof (induction js arbitrary: rv bm)
  case Nil
  then show ?case by simp
next
  case (Cons j js)
  have "[length (bm_verts bm)..<length (bm_verts bm) + length (j # js)] =
        length (bm_verts bm) # [Suc (length (bm_verts bm))..<Suc (length (bm_verts bm)) + length js]"
    using upt_add_Suc [of "length (bm_verts bm)" "length js"] by simp
  with Cons show ?case
    by (simp add: truediv_def verts_new_def ring_point_def)
qed

lemma ring_loop_range:
  "S \<noteq> 0 \<Longrightarrow>
   ring_loop rr y (int S) (range1 (int S)) ([], bm) =
     Inr ([length (bm_verts bm)..<length (bm_verts bm) + S],
          bm\<lparr>bm_verts := bm_verts bm @ map (ring_point rr y S) [0..<S]\<rparr>)"
  by (simp add: range1_int ring_loop_eq)

lemma bottom_cap_loop_eq:
  "S \<noteq> 0 \<Longrightarrow> is = [] \<or> C \<noteq> 0 \<Longrightarrow>
   bottom_cap_loop radius hl (int S) (int C) (map int is) (vbr, bm) =
     Inr (vbr @ chunks (length (bm_verts bm)) S (length is),
          bm\<lparr>bm_verts := bm_verts bm @ concat (map (bottom_cap_ring radius hl S C) is)\<rparr>)"
proof (induction "is" arbitrary: vbr bm)
  case Nil
  then show ?case by simp
next
  case (Cons i "is")
  then show ?case
    by (simp add: truediv_def ring_loop_range bottom_cap_ring_def Let_def mult.commute)
qed

lemma cylinder_loop_eq:
  "S \<noteq> 0 \<Longrightarrow> is = [] \<or> H \<noteq> 0 \<Longrightarrow>
   cylinder_loop radius hl (int S) (int H) (map int is) (vbr, bm) =
     Inr (vbr @ chunks (length (bm_verts bm)) S (length is),
          bm\<lparr>bm_verts := bm_verts bm @ concat (map (cylinder_ring radius hl S H) is)\<rparr>)"
proof (induction "is" arbitrary: vbr bm)
  case Nil
  then show ?case by simp
next
  case (Cons i "is")
  then show ?case
    by (simp add: truediv_def ring_loop_range cylinder_ring_def)
qed

lemma top_cap_loop_eq:
  "S \<noteq> 0 \<Longrightarrow> is = [] \<or> C \<noteq> 0 \<Longrightarrow>
   top_cap_loop radius hl (int S) (int C) (map int is) (vbr, bm) =
     Inr (vbr @ chunks (length (bm_verts bm)) S (length is),
          bm\<lparr>bm_verts := bm_verts bm @ concat (map (top_cap_ring radius hl S C) is)\<rparr>)"
proof (induction "is" arbitrary: vbr bm)
  case Nil
  then show ?case by simp
next
  case (Cons i "is")
  then show ?case
    by (simp add: truediv_def ring_loop_range top_cap_ring_def Let_def mult.commute)
qed

lemma length_chunks [simp]: "length (chunks n S k) = k"
  by (induction k arbitrary: n) auto

lemma chunks_nth: "i < k \<Longrightarrow> chunks n S k ! i = [n + i * S..<n + i * S + S]"
proof (induction k arbitrary: n i)
  case 0
  then show ?case by simp
next
  case (Suc k)
  show ?case
  proof (cases i)
    case 0
    then show ?thesis by simp
  next
    case (Suc i')
    with Suc.prems have "i' < k" by simp
    from Suc.IH [OF this, of "n + S"] Suc show ?thesis
      by (simp add: add.assoc add.commute add.left_commute)
  qed
qed

lemma chunks_append: "chunks n S a @ chunks (n + a * S) S b = chunks n S (a + b)"
proof (induction a arbitrary: n)
  case 0
  then show ?case by simp
next
  case (Suc a)
  have "n + Suc a * S = (n + S) + a * S" by simp
  with Suc [of "n + S"] show ?case by (simp add: add.assoc)
qed

lemma py_index_nat: "k < length xs \<Longrightarrow> py_index xs (int k) = Inr (xs ! k)"
  by (simp add: py_index_def)

lemma py_index_last: "xs \<noteq> [] \<Longrightarrow> py_index xs (- 1) = Inr (xs ! (length xs - 1))"
  by (cases xs) (auto simp: py_index_def Let_def nat_add_distrib)

lemma py_index2_chunks:
  "i < R \<Longrightarrow> j < S \<Longrightarrow> py_index2 (chunks 0 S R) (int i) (int j) = Inr (ring_vertex S i j)"
  by (simp add: py_index2_def py_index_nat chunks_nth ring_vertex_def)

lemma py_mod_next: "S \<noteq> 0 \<Longrightarrow> py_mod (int j + 1) (int S) = Inr (int (next_around S j))"
  by (simp add: py_mod_def next_around_def zmod_int add.commute)

lemma next_around_less [simp]: "S \<noteq> 0 \<Longrightarrow> next_around S j < S"
  by (simp add: next_around_def)

lemma quad_row_loop_eq:
  "S \<noteq> 0 \<Longrightarrow> Suc i < R \<Longrightarrow> \<forall>j\<in>set js. j < S \<Longrightarrow>
   quad_row_loop (chunks 0 S R) (int S) (int i) (map int js) bm =
     add_faces (map (quad_face S i) js) bm"
proof (induction js arbitrary: bm)
  case Nil
  then show ?case by simp
next
  case (Cons j js)
  from Cons.prems have j: "j < S" and i: "i < R" "Suc i < R" by auto
  have i1: "py_index2 (chunks 0 S R) (int i + 1) (int k) = Inr (ring_vertex S (Suc i) k)" if "k < S" for k
    using py_index2_chunks [of "Suc i" R k S] that i by (simp add: add.commute)
  show ?case
    using Cons j i
    by (simp add: py_mod_next py_index2_chunks i1 quad_face_def and_then_def split: sum.splits)
qed

lemma add_faces_append: "add_faces (fs @ gs) bm = and_then (add_faces fs bm) (add_faces gs)"
  by (induction fs arbitrary: bm) (auto simp: and_then_def split: sum.splits)

lemma quad_loop_eq:
  "S \<noteq> 0 \<Longrightarrow> \<forall>i\<in>set is. Suc i < R \<Longrightarrow>
   quad_loop (chunks 0 S R) (int S) (map int is) bm =
     add_faces (map (\<lambda>(i, j). quad_face S i j) (List.product is [0..<S])) bm"
proof (induction "is" arbitrary: bm)
  case Nil
  then show ?case by simp
next
  case (Cons i "is")
  have row: "quad_row_loop (chunks 0 S R) (int S) (int i) (range1 (int S)) bm =
             add_faces (map (quad_face S i) [0..<S]) bm"
    using Cons.prems by (simp add: range1_int quad_row_loop_eq)
  show ?case
    using Cons by (simp add: row add_faces_append comp_def and_then_def split: sum.splits)
qed

lemma bottom_fan_loop_eq:
  "S \<noteq> 0 \<Longrightarrow> 0 < R \<Longrightarrow> \<forall>j\<in>set js. j < S \<Longrightarrow>
   bottom_fan_loop (chunks 0 S R) p (int S) (map int js) bm =
     add_faces (map (bottom_face S p) js) bm"
proof (induction js arbitrary: bm)
  case Nil
  then show ?case by simp
next
  case (Cons j js)
  have z: "py_index2 (chunks 0 S R) 0 (int k) = Inr (ring_vertex S 0 k)" if "k < S" for k
    using py_index2_chunks [of 0 R k S] that Cons.prems by simp
  show ?case
    using Cons
    by (simp add: py_mod_next z bottom_face_def and_then_def split: sum.splits)
qed

lemma top_fan_loop_eq:
  "S \<noteq> 0 \<Longrightarrow> \<forall>j\<in>set js. j < S \<Longrightarrow>
   top_fan_loop [n * S..<n * S + S] p (int S) (map int js) bm =
     add_faces (map (top_face S n p) js) bm"
proof (induction js arbitrary: bm)
  case Nil
  then show ?case by simp
next
  case (Cons j js)
  then show ?case
    by (simp add: py_mod_next py_index_nat top_face_def ring_vertex_def and_then_def
             split: sum.splits)
qed

lemma face_exists_iff: "face_exists bm vs \<longleftrightarrow> set vs \<in> set ` set (bm_faces bm)"
  by (auto simp: face_exists_def list_ex_iff)

lemma add_faces_ok:
  "\<forall>f\<in>set fs. 3 \<le> length f \<and> distinct f \<Longrightarrow>
   distinct (map set fs) \<Longrightarrow>
   set ` set fs \<inter> set ` set (bm_faces bm) = {} \<Longrightarrow>
   add_faces fs bm = Inr (bm\<lparr>bm_faces := bm_faces bm @ fs\<rparr>)"
proof (induction fs arbitrary: bm)
  case Nil
  then show ?case by simp
next
  case (Cons f fs)
  from Cons.prems have new: "faces_new f bm = Inr (bm\<lparr>bm_faces := bm_faces bm @ [f]\<rparr>)"
    by (auto simp: faces_new_def face_exists_iff)
  have "add_faces fs (bm\<lparr>bm_faces := bm_faces bm @ [f]\<rparr>) =
        Inr (bm\<lparr>bm_faces := bm_faces bm @ [f], bm_faces := (bm_faces bm @ [f]) @ fs\<rparr>)"
    using Cons.prems by (intro Cons.IH [THEN trans]) auto
  with new show ?case by simp
qed

lemma ring_vertex_eq_iff:
  "j < S \<Longrightarrow> k < S \<Longrightarrow> ring_vertex S i j = ring_vertex S i' k \<longleftrightarrow> i = i' \<and> j = k"
proof
  assume lt: "j < S" "k < S" and eq: "ring_vertex S i j = ring_vertex S i' k"
  then have "(i * S + j) div S = (i' * S + k) div S" "(i * S + j) mod S = (i' * S + k) mod S"
    by (simp_all add: ring_vertex_def)
  with lt show "i = i' \<and> j = k" by simp
qed simp

lemma next_around_eq: "j < S \<Longrightarrow> next_around S j = (if Suc j = S then 0 else Suc j)"
  by (auto simp: next_around_def)

lemma next_around_neq: "2 \<le> S \<Longrightarrow> j < S \<Longrightarrow> next_around S j \<noteq> j"
  by (auto simp: next_around_eq)

lemma next_around_twice: "3 \<le> S \<Longrightarrow> j < S \<Longrightarrow> next_around S (next_around S j) \<noteq> j"
  by (auto simp: next_around_eq)

lemma quad_face_set_inj:
  assumes S: "3 \<le> S" and j: "j < S" and k: "k < S"
    and eq: "set (quad_face S i j) = set (quad_face S i' k)"
  shows "i = i' \<and> j = k"
proof -
  have nj: "next_around S j < S" and nk: "next_around S k < S"
    using S by simp_all
  have "ring_vertex S i j \<in> set (quad_face S i j)"
       "ring_vertex S (Suc i) j \<in> set (quad_face S i j)"
       "ring_vertex S i' k \<in> set (quad_face S i' k)"
    by (simp_all add: quad_face_def)
  then have "ring_vertex S i j \<in> set (quad_face S i' k)"
       "ring_vertex S (Suc i) j \<in> set (quad_face S i' k)"
       "ring_vertex S i' k \<in> set (quad_face S i j)"
    by (simp_all only: eq)
  then have a: "(i = i' \<and> (j = k \<or> j = next_around S k)) \<or> (i = Suc i' \<and> (j = k \<or> j = next_around S k))"
    and b: "(Suc i = i' \<and> (j = k \<or> j = next_around S k)) \<or> (i = i' \<and> (j = k \<or> j = next_around S k))"
    and c: "(i' = i \<and> (k = j \<or> k = next_around S j)) \<or> (i' = Suc i \<and> (k = j \<or> k = next_around S j))"
    using j k nj nk by (auto simp: quad_face_def ring_vertex_eq_iff)
  from a b have i: "i = i'" by auto
  with a c have "j = k \<or> (j = next_around S k \<and> k = next_around S j)" by auto
  with next_around_twice [OF S j] i show ?thesis by auto
qed

lemma bottom_face_set_inj:
  assumes S: "3 \<le> S" and R: "0 < R" and j: "j < S" and k: "k < S"
    and eq: "set (bottom_face S (ring_vertex S R 0) j) = set (bottom_face S (ring_vertex S R 0) k)"
  shows "j = k"
proof -
  have nj: "next_around S j < S" and nk: "next_around S k < S" and z: "0 < S"
    using S by simp_all
  have "ring_vertex S 0 j \<in> set (bottom_face S (ring_vertex S R 0) j)"
       "ring_vertex S 0 k \<in> set (bottom_face S (ring_vertex S R 0) k)"
    by (simp_all add: bottom_face_def)
  then have "ring_vertex S 0 j \<in> set (bottom_face S (ring_vertex S R 0) k)"
       "ring_vertex S 0 k \<in> set (bottom_face S (ring_vertex S R 0) j)"
    by (simp_all only: eq)
  then have "j = k \<or> (j = next_around S k \<and> k = next_around S j)"
    using j k nj nk z R by (auto simp: bottom_face_def ring_vertex_eq_iff)
  with next_around_twice [OF S j] show ?thesis by auto
qed

lemma top_face_set_inj:
  assumes S: "3 \<le> S" and R: "0 < R" and j: "j < S" and k: "k < S"
    and eq: "set (top_face S (R - 1) (ring_vertex S R 1) j) = set (top_face S (R - 1) (ring_vertex S R 1) k)"
  shows "j = k"
proof -
  have nj: "next_around S j < S" and nk: "next_around S k < S" and z: "1 < S"
    using S by simp_all
  have "ring_vertex S (R - 1) j \<in> set (top_face S (R - 1) (ring_vertex S R 1) j)"
       "ring_vertex S (R - 1) k \<in> set (top_face S (R - 1) (ring_vertex S R 1) k)"
    by (simp_all add: top_face_def)
  then have "ring_vertex S (R - 1) j \<in> set (top_face S (R - 1) (ring_vertex S R 1) k)"
       "ring_vertex S (R - 1) k \<in> set (top_face S (R - 1) (ring_vertex S R 1) j)"
    by (simp_all only: eq)
  then have "j = k \<or> (j = next_around S k \<and> k = next_around S j)"
    using j k nj nk z R by (auto simp: top_face_def ring_vertex_eq_iff)
  with next_around_twice [OF S j] show ?thesis by auto
qed

lemma pole_notin_quad:
  assumes S: "3 \<le> S" and i: "Suc i < R" and j: "j < S" and p: "p < S"
  shows "ring_vertex S R p \<notin> set (quad_face S i j)"
  using assms by (auto simp: quad_face_def ring_vertex_eq_iff)

lemma quad_face_distinct: "3 \<le> S \<Longrightarrow> j < S \<Longrightarrow> distinct (quad_face S i j) \<and> length (quad_face S i j) = 4"
  using next_around_neq [of S j]
  by (auto simp: quad_face_def ring_vertex_eq_iff)

lemma bottom_face_distinct:
  "3 \<le> S \<Longrightarrow> 0 < R \<Longrightarrow> j < S \<Longrightarrow>
   distinct (bottom_face S (ring_vertex S R 0) j) \<and> length (bottom_face S (ring_vertex S R 0) j) = 3"
  using next_around_neq [of S j]
  by (auto simp: bottom_face_def ring_vertex_eq_iff)

lemma top_face_distinct:
  "3 \<le> S \<Longrightarrow> 0 < R \<Longrightarrow> j < S \<Longrightarrow>
   distinct (top_face S (R - 1) (ring_vertex S R 1) j) \<and> length (top_face S (R - 1) (ring_vertex S R 1) j) = 3"
  using next_around_neq [of S j]
  by (auto simp: top_face_def ring_vertex_eq_iff)

lemma capsule_faces_poles:
  "capsule_faces S R =
     map (\<lambda>(i, j). quad_face S i j) (List.product [0..<R - 1] [0..<S]) @
     map (bottom_face S (ring_vertex S R 0)) [0..<S] @
     map (top_face S (R - 1) (ring_vertex S R 1)) [0..<S]"
  by (simp add: capsule_faces_def ring_vertex_def)

lemma capsule_faces_wellformed:
  assumes S: "3 \<le> S" and R: "0 < R" and f: "f \<in> set (capsule_faces S R)"
  shows "3 \<le> length f \<and> distinct f"
  using f quad_face_distinct [OF S] bottom_face_distinct [OF S R] top_face_distinct [OF S R]
  by (auto simp: capsule_faces_poles)

lemma capsule_faces_distinct:
  assumes S: "3 \<le> S" and R: "0 < R"
  shows "distinct (map set (capsule_faces S R))"
proof -
  let ?Q = "map (\<lambda>(i, j). quad_face S i j) (List.product [0..<R - 1] [0..<S])"
  let ?B = "map (bottom_face S (ring_vertex S R 0)) [0..<S]"
  let ?T = "map (top_face S (R - 1) (ring_vertex S R 1)) [0..<S]"
  have p0: "0 < S" and p1: "1 < S" using S by simp_all
  have dq: "distinct (map set ?Q)"
    unfolding map_map
    by (rule distinct_map [THEN iffD2])
       (auto simp: distinct_product inj_on_def dest: quad_face_set_inj [OF S, rotated 2])
  have db: "distinct (map set ?B)"
    unfolding map_map
    by (rule distinct_map [THEN iffD2])
       (auto simp: inj_on_def dest: bottom_face_set_inj [OF S R, rotated 2])
  have dt: "distinct (map set ?T)"
    unfolding map_map
    by (rule distinct_map [THEN iffD2])
       (auto simp: inj_on_def dest: top_face_set_inj [OF S R, rotated 2, unfolded One_nat_def])
  have qb: "set q \<noteq> set b" if "q \<in> set ?Q" "b \<in> set ?B" for q b
  proof -
    from that obtain i j k where q: "q = quad_face S i j" "Suc i < R" "j < S"
      and b: "b = bottom_face S (ring_vertex S R 0) k" by auto
    have "ring_vertex S R 0 \<in> set b" by (simp add: b bottom_face_def)
    moreover have "ring_vertex S R 0 \<notin> set q"
      using pole_notin_quad [OF S q(2) q(3) p0] q(1) by simp
    ultimately show ?thesis by auto
  qed
  have qt: "set q \<noteq> set t" if "q \<in> set ?Q" "t \<in> set ?T" for q t
  proof -
    from that obtain i j k where q: "q = quad_face S i j" "Suc i < R" "j < S"
      and t: "t = top_face S (R - 1) (ring_vertex S R 1) k" by auto
    have "ring_vertex S R 1 \<in> set t" by (simp add: t top_face_def)
    moreover have "ring_vertex S R 1 \<notin> set q"
      using pole_notin_quad [OF S q(2) q(3) p1] q(1) by simp
    ultimately show ?thesis by auto
  qed
  have bt: "set b \<noteq> set t" if "b \<in> set ?B" "t \<in> set ?T" for b t
  proof -
    from that obtain j k where b: "b = bottom_face S (ring_vertex S R 0) j" "j < S"
      and t: "t = top_face S (R - 1) (ring_vertex S R 1) k" "k < S" by auto
    have nk: "next_around S k < S" using p0 by simp
    have "ring_vertex S R 0 \<in> set b" by (simp add: b bottom_face_def)
    moreover have "ring_vertex S R 0 \<notin> set t"
      using R p0 p1 t(2) nk by (auto simp: t(1) top_face_def ring_vertex_eq_iff)
    ultimately show ?thesis by auto
  qed
  have qb': "set ` set ?Q \<inter> set ` set ?B = {}" using qb by blast
  have qt': "set ` set ?Q \<inter> set ` set ?T = {}" using qt by blast
  have bt': "set ` set ?B \<inter> set ` set ?T = {}" using bt by blast
  have "distinct (map set ?Q @ map set ?B @ map set ?T)"
    unfolding distinct_append set_append set_map Int_Un_distrib
    using dq db dt qb' qt' bt' by simp
  then show ?thesis
    by (simp add: capsule_faces_poles)
qed

lemma length_concat_rings:
  "\<forall>i. length (f i) = S \<Longrightarrow> length (concat (map f is)) = length is * S"
  by (induction "is") auto

lemma length_bottom_cap_ring [simp]: "length (bottom_cap_ring radius hl S C i) = S"
  by (simp add: bottom_cap_ring_def)

lemma length_cylinder_ring [simp]: "length (cylinder_ring radius hl S H i) = S"
  by (simp add: cylinder_ring_def)

lemma length_top_cap_ring [simp]: "length (top_cap_ring radius hl S C i) = S"
  by (simp add: top_cap_ring_def)

lemma length_capsule_vertices:
  "length (capsule_vertices radius hl S H C) = S * (2 * C + H + 1) + 2"
  by (simp add: capsule_vertices_def length_concat_rings algebra_simps)

lemma add_faces_split:
  assumes "add_faces (fs @ gs) bm = Inr bm'"
  obtains bm1 where "add_faces fs bm = Inr bm1" "add_faces gs bm1 = Inr bm'"
  using assms by (cases "add_faces fs bm") (auto simp: add_faces_append)

lemma face_phase:
  assumes S: "3 \<le> S" and R: "0 < R" and bm: "bm_faces bm = []"
  shows "and_then (quad_loop (chunks 0 S R) (int S) (range1 (int (length (chunks 0 S R)) - 1)) bm) (\<lambda>bm6.
         and_then (bottom_fan_loop (chunks 0 S R) (R * S) (int S) (range1 (int S)) bm6) (\<lambda>bm7.
         and_then (py_index (chunks 0 S R) (- 1)) (\<lambda>top_ring.
         and_then (top_fan_loop top_ring (R * S + 1) (int S) (range1 (int S)) bm7) (\<lambda>bm8.
           Inr (to_mesh name bm8))))) =
         Inr (to_mesh name (bm\<lparr>bm_faces := capsule_faces S R\<rparr>))"
proof -
  let ?Q = "map (\<lambda>(i, j). quad_face S i j) (List.product [0..<R - 1] [0..<S])"
  let ?B = "map (bottom_face S (R * S)) [0..<S]"
  let ?T = "map (top_face S (R - 1) (R * S + 1)) [0..<S]"
  have S0: "S \<noteq> 0" using S by simp
  have rr: "range1 (int (length (chunks 0 S R)) - 1) = map int [0..<R - 1]"
    using R range1_int [of "R - 1"] by simp
  have q: "quad_loop (chunks 0 S R) (int S) (map int [0..<R - 1]) b = add_faces ?Q b" for b
    by (rule quad_loop_eq [OF S0]) auto
  have b: "bottom_fan_loop (chunks 0 S R) (R * S) (int S) (range1 (int S)) b = add_faces ?B b" for b
    unfolding range1_int by (rule bottom_fan_loop_eq [OF S0 R]) auto
  have ne: "chunks 0 S R \<noteq> []" using R by (cases R) auto
  have last: "py_index (chunks 0 S R) (- 1) = Inr [(R - 1) * S..<(R - 1) * S + S]"
    using R by (simp add: py_index_last [OF ne] chunks_nth)
  have t: "top_fan_loop [(R - 1) * S..<(R - 1) * S + S] (R * S + 1) (int S) (range1 (int S)) b =
           add_faces ?T b" for b
    unfolding range1_int by (rule top_fan_loop_eq [OF S0]) auto
  have "add_faces (capsule_faces S R) bm = Inr (bm\<lparr>bm_faces := bm_faces bm @ capsule_faces S R\<rparr>)"
    using capsule_faces_wellformed [OF S R] capsule_faces_distinct [OF S R] bm
    by (intro add_faces_ok) auto
  then have all: "add_faces (?Q @ ?B @ ?T) bm = Inr (bm\<lparr>bm_faces := capsule_faces S R\<rparr>)"
    using bm by (simp add: capsule_faces_def)
  from all obtain bm6 where q6: "add_faces ?Q bm = Inr bm6"
    and rest: "add_faces (?B @ ?T) bm6 = Inr (bm\<lparr>bm_faces := capsule_faces S R\<rparr>)"
    by (rule add_faces_split)
  from rest obtain bm7 where b7: "add_faces ?B bm6 = Inr bm7"
    and t8: "add_faces ?T bm7 = Inr (bm\<lparr>bm_faces := capsule_faces S R\<rparr>)"
    by (rule add_faces_split)
  show ?thesis
    by (simp only: rr q b last t q6 b7 t8 and_then_Inr)
qed

lemma create_capsule_eq:
  assumes S: "3 \<le> S" and H: "1 \<le> H"
  shows "create_capsule name radius hl (int S) (int H) (int C) =
         Inr \<lparr>mesh_name = name,
              vertices = capsule_vertices radius hl S H C,
              polygons = capsule_faces S (2 * C + H + 1)\<rparr>"
proof -
  let ?R = "2 * C + H + 1"
  let ?V = "concat (map (bottom_cap_ring radius hl S C) (rev [1..<Suc C])) @
            concat (map (cylinder_ring radius hl S H) [0..<Suc H]) @
            concat (map (top_cap_ring radius hl S C) [1..<Suc C])"
  have S0: "S \<noteq> 0" and H0: "H \<noteq> 0" using S H by simp_all
  have c: "rev [Suc 0..<Suc C] = [] \<or> C \<noteq> 0" "[Suc 0..<Suc C] = [] \<or> C \<noteq> 0" by auto
  have r: "range1 (int H + 1) = map int [0..<Suc H]"
    using range1_int [of "Suc H"] by (simp add: add.commute)
  have len: "length ?V = ?R * S"
    by (simp add: length_concat_rings algebra_simps)
  have ch: "chunks 0 S C @ chunks (C * S) S (Suc H) @ chunks (C * S + Suc H * S) S C =
            chunks 0 S ?R"
  proof -
    have "C * S + Suc H * S = 0 + (C + Suc H) * S" "0 + C * S = C * S"
         "2 * C + H + 1 = (C + Suc H) + C"
      by (simp_all add: algebra_simps)
    then show ?thesis
      using chunks_append [of 0 S C "Suc H"] chunks_append [of 0 S "C + Suc H" C]
      by (simp only: append_assoc [symmetric])
  qed
  have b1: "bottom_cap_loop radius hl (int S) (int C) (range_down (int C) 0) ([], bmesh_new) =
            Inr (chunks 0 S C,
                 \<lparr>bm_verts = concat (map (bottom_cap_ring radius hl S C) (rev [1..<Suc C])),
                  bm_faces = []\<rparr>)"
    by (simp add: range_down_int bottom_cap_loop_eq [OF S0 c(1)] bmesh_new_def del: upt_Suc)
  have b2: "cylinder_loop radius hl (int S) (int H) (range1 (int H + 1))
              (chunks 0 S C,
                 \<lparr>bm_verts = concat (map (bottom_cap_ring radius hl S C) (rev [1..<Suc C])),
                  bm_faces = []\<rparr>) =
            Inr (chunks 0 S C @ chunks (C * S) S (Suc H),
                 \<lparr>bm_verts = concat (map (bottom_cap_ring radius hl S C) (rev [1..<Suc C])) @
                    concat (map (cylinder_ring radius hl S H) [0..<Suc H]),
                  bm_faces = []\<rparr>)"
    by (simp add: r cylinder_loop_eq [OF S0 disjI2 [OF H0]] length_concat_rings
             del: upt_Suc chunks.simps)
  have b3: "top_cap_loop radius hl (int S) (int C) (range2 1 (int C + 1))
              (chunks 0 S C @ chunks (C * S) S (Suc H),
                 \<lparr>bm_verts = concat (map (bottom_cap_ring radius hl S C) (rev [1..<Suc C])) @
                    concat (map (cylinder_ring radius hl S H) [0..<Suc H]),
                  bm_faces = []\<rparr>) =
            Inr (chunks 0 S ?R, \<lparr>bm_verts = ?V, bm_faces = []\<rparr>)"
    using ch
    by (simp add: range2_int top_cap_loop_eq [OF S0 c(2)] length_concat_rings
             del: upt_Suc chunks.simps)
  have fp: "and_then (quad_loop (chunks 0 S ?R) (int S) (range1 (int (length (chunks 0 S ?R)) - 1)) bm) (\<lambda>bm6.
         and_then (bottom_fan_loop (chunks 0 S ?R) (?R * S) (int S) (range1 (int S)) bm6) (\<lambda>bm7.
         and_then (py_index (chunks 0 S ?R) (- 1)) (\<lambda>top_ring.
         and_then (top_fan_loop top_ring (?R * S + 1) (int S) (range1 (int S)) bm7) (\<lambda>bm8.
           Inr (to_mesh name bm8))))) =
         Inr (to_mesh name (bm\<lparr>bm_faces := capsule_faces S ?R\<rparr>))"
    if "bm_faces bm = []" for bm
    using face_phase [OF S _ that, of ?R name] by simp
  have p1: "verts_new co \<lparr>bm_verts = ?V, bm_faces = []\<rparr> =
            (?R * S, \<lparr>bm_verts = ?V @ [co], bm_faces = []\<rparr>)" for co
    using len by (simp add: verts_new_def)
  have p2: "verts_new co' \<lparr>bm_verts = ?V @ [co], bm_faces = []\<rparr> =
            (?R * S + 1, \<lparr>bm_verts = ?V @ [co, co'], bm_faces = []\<rparr>)" for co co'
    using len by (simp add: verts_new_def)
  show ?thesis
    unfolding create_capsule_def Let_def
    apply (simp only: b1 b2 b3 and_then_Inr prod.case p1 p2)
    apply (subst fp)
     apply (simp_all add: to_mesh_def capsule_vertices_def)
    done
qed

section \<open>Rings, faces and positions of the capsule\<close>

lemma length_capsule_faces: "length (capsule_faces S R) = (R - 1) * S + 2 * S"
  by (simp add: capsule_faces_def)

lemma quads_of_capsule_faces:
  "filter (\<lambda>f. length f = 4) (capsule_faces S R) =
     map (\<lambda>(i, j). quad_face S i j) (List.product [0..<R - 1] [0..<S])"
  by (auto simp: capsule_faces_def filter_map comp_def quad_face_def bottom_face_def top_face_def
        split_def filter_empty_conv)

lemma triangles_of_capsule_faces:
  "filter (\<lambda>f. length f = 3) (capsule_faces S R) =
     map (bottom_face S (R * S)) [0..<S] @ map (top_face S (R - 1) (R * S + 1)) [0..<S]"
  by (auto simp: capsule_faces_def filter_map comp_def quad_face_def bottom_face_def top_face_def
        split_def filter_empty_conv)

lemma rev_upt_1: "rev [Suc 0..<Suc C] = map (\<lambda>i. C - i) [0..<C]"
  by (rule nth_equalityI) (auto simp: rev_nth simp del: upt_Suc)

lemma upt_1_shift: "[Suc 0..<Suc C] = map (\<lambda>i. i + 1) [0..<C]"
  by (rule nth_equalityI) (auto simp del: upt_Suc)

lemma capsule_vertices_rings:
  "capsule_vertices radius hl S H C =
     concat (map (capsule_ring radius hl S H C) [0..<2 * C + H + 1]) @
     [(0, - hl - radius, 0), (0, hl + radius, 0)]"
proof -
  have split: "[0..<2 * C + H + 1] = [0..<C] @ map (\<lambda>i. i + C) [0..<Suc H] @ map (\<lambda>i. i + (C + H + 1)) [0..<C]"
  proof -
    have a: "[0..<C + Suc H + C] = [0..<C + Suc H] @ [C + Suc H..<C + Suc H + C]"
      by (rule upt_add_eq_append) simp
    have b: "[0..<C + Suc H] = [0..<C] @ [C..<C + Suc H]"
      by (rule upt_add_eq_append) simp
    have c: "2 * C + H + 1 = C + Suc H + C" by simp
    have "[0..<2 * C + H + 1] = [0..<C] @ [C..<C + Suc H] @ [C + Suc H..<C + Suc H + C]"
      unfolding c a b by simp
    moreover have "[C..<C + Suc H] = map (\<lambda>i. i + C) [0..<Suc H]"
      by (rule nth_equalityI) (auto simp del: upt_Suc)
    moreover have "[C + Suc H..<C + Suc H + C] = map (\<lambda>i. i + (C + H + 1)) [0..<C]"
      by (rule nth_equalityI) (auto simp del: upt_Suc)
    ultimately show ?thesis by (simp del: upt_Suc)
  qed
  have b: "map (capsule_ring radius hl S H C) [0..<C] =
           map (bottom_cap_ring radius hl S C) (rev [1..<Suc C])"
    by (simp add: rev_upt_1 capsule_ring_def comp_def del: upt_Suc)
  have c: "map (capsule_ring radius hl S H C) (map (\<lambda>i. i + C) [0..<Suc H]) =
           map (cylinder_ring radius hl S H) [0..<Suc H]"
    by (simp add: capsule_ring_def comp_def del: upt_Suc)
  have t: "map (capsule_ring radius hl S H C) (map (\<lambda>i. i + (C + H + 1)) [0..<C]) =
           map (top_cap_ring radius hl S C) [1..<Suc C]"
    by (simp add: upt_1_shift capsule_ring_def comp_def del: upt_Suc)
  show ?thesis
    unfolding capsule_vertices_def split map_append concat_append b c t by simp
qed

lemma length_capsule_ring [simp]: "length (capsule_ring radius hl S H C i) = S"
  by (simp add: capsule_ring_def)

lemma nth_concat_rings:
  "\<forall>i. length (f i) = S \<Longrightarrow> i < n \<Longrightarrow> j < S \<Longrightarrow>
   concat (map f [0..<n]) ! (i * S + j) = f i ! j"
proof (induction n)
  case 0
  then show ?case by simp
next
  case (Suc n)
  have len: "length (concat (map f [0..<n])) = n * S"
    using Suc.prems(1) by (simp add: length_concat_rings)
  show ?case
  proof (cases "i < n")
    case True
    then have "i * S + j < n * S"
      using Suc.prems(3)
      by (metis add.commute add_less_cancel_left less_le_trans mult_Suc Suc_leI mult_le_mono1)
    with Suc True len show ?thesis by (simp add: nth_append)
  next
    case False
    with Suc.prems have "i = n" by simp
    with len show ?thesis by (simp add: nth_append)
  qed
qed

lemma capsule_vertices_nth:
  assumes "i < 2 * C + H + 1" and "j < S"
  shows "capsule_vertices radius hl S H C ! ring_vertex S i j = capsule_ring radius hl S H C i ! j"
proof -
  have "i * S + j < (2 * C + H + 1) * S"
    using assms
    by (metis add.commute add_less_cancel_left less_le_trans mult_Suc Suc_leI mult_le_mono1)
  then show ?thesis
    using nth_concat_rings [of "capsule_ring radius hl S H C" S i "2 * C + H + 1" j] assms
    by (simp add: capsule_vertices_rings ring_vertex_def nth_append length_concat_rings
          del: upt_Suc)
qed

lemma capsule_vertices_poles:
  "capsule_vertices radius hl S H C ! ((2 * C + H + 1) * S) = (0, - hl - radius, 0)"
  "capsule_vertices radius hl S H C ! ((2 * C + H + 1) * S + 1) = (0, hl + radius, 0)"
  by (simp_all add: capsule_vertices_rings nth_append length_concat_rings del: upt_Suc)

lemma circle_sq: "(rr * cos t)\<^sup>2 + (rr * sin t)\<^sup>2 = (rr::real)\<^sup>2"
proof -
  have "(rr * cos t)\<^sup>2 + (rr * sin t)\<^sup>2 = rr\<^sup>2 * ((cos t)\<^sup>2 + (sin t)\<^sup>2)"
    by (simp only: power_mult_distrib distrib_left)
  then show ?thesis by simp
qed

lemma cap_angle_bounds:
  assumes "1 \<le> i" and "i \<le> C"
  shows "0 \<le> (pi / 2) * (real i / real C)" and "(pi / 2) * (real i / real C) \<le> pi / 2"
proof -
  have "real i / real C \<le> 1" using assms by simp
  then show "(pi / 2) * (real i / real C) \<le> pi / 2"
    using mult_left_mono [of "real i / real C" 1 "pi / 2"] by simp
  show "0 \<le> (pi / 2) * (real i / real C)" by simp
qed

lemma cap_sin_bounds:
  assumes "1 \<le> i" and "i \<le> C"
  shows "0 \<le> sin ((pi / 2) * (real i / real C))"
  using cap_angle_bounds [OF assms] pi_ge_zero by (intro sin_ge_zero) linarith+

lemma cap_point_on_surface:
  assumes r: "0 \<le> radius" and hl: "0 \<le> hl" and s: "0 \<le> sin a"
  shows "on_capsule_surface radius hl (ring_point (radius * cos a) (- hl - radius * sin a) S j)"
    and "on_capsule_surface radius hl (ring_point (radius * cos a) (hl + radius * sin a) S j)"
proof -
  have rs: "0 \<le> radius * sin a" using r s by simp
  have sq: "(radius * cos a)\<^sup>2 + (radius * sin a)\<^sup>2 = radius\<^sup>2" by (rule circle_sq)
  have flat: "(radius * cos a)\<^sup>2 = radius\<^sup>2" if "radius * sin a = 0"
    using sq that by simp
  show "on_capsule_surface radius hl (ring_point (radius * cos a) (- hl - radius * sin a) S j)"
    using rs hl sq flat
    by (auto simp: on_capsule_surface_def ring_point_def circle_sq abs_le_iff
          add.commute add.left_commute)
  show "on_capsule_surface radius hl (ring_point (radius * cos a) (hl + radius * sin a) S j)"
    using rs hl sq flat
    by (auto simp: on_capsule_surface_def ring_point_def circle_sq abs_le_iff
          add.commute add.left_commute)
qed

lemma cap_point_height:
  assumes r: "0 \<le> radius" and hl: "0 \<le> hl" and s: "0 \<le> sin a"
  shows "\<bar>y_of (ring_point (radius * cos a) (- hl - radius * sin a) S j)\<bar> \<le> hl + radius"
    and "\<bar>y_of (ring_point (radius * cos a) (hl + radius * sin a) S j)\<bar> \<le> hl + radius"
proof -
  have "0 \<le> radius * sin a" using r s by simp
  moreover have "radius * sin a \<le> radius * 1"
    using r by (intro mult_left_mono) simp_all
  ultimately show "\<bar>y_of (ring_point (radius * cos a) (- hl - radius * sin a) S j)\<bar> \<le> hl + radius"
    "\<bar>y_of (ring_point (radius * cos a) (hl + radius * sin a) S j)\<bar> \<le> hl + radius"
    using hl by (simp_all add: y_of_def ring_point_def abs_le_iff)
qed

lemma cylinder_height_bounds:
  assumes hl: "0 \<le> hl" and i: "i \<le> H"
  shows "\<bar>- hl + 2 * hl * (real i / real H)\<bar> \<le> hl"
proof -
  have "0 \<le> real i / real H" by simp
  moreover have "real i / real H \<le> 1"
    using i by (cases "H = 0") (simp_all add: divide_le_eq)
  ultimately have q: "0 \<le> real i / real H" "real i / real H \<le> 1" by simp_all
  have "0 \<le> (2 * hl) * (real i / real H)"
    using hl q(1) by (intro mult_nonneg_nonneg) simp_all
  moreover have "(2 * hl) * (real i / real H) \<le> (2 * hl) * 1"
    using hl q(2) by (intro mult_left_mono) simp_all
  ultimately show ?thesis by (simp add: abs_le_iff)
qed

lemma cylinder_point_on_surface:
  assumes hl: "0 \<le> hl" and i: "i \<le> H"
  shows "on_capsule_surface radius hl
           (ring_point radius (- hl + 2 * hl * (real i / real H)) S j)"
  using cylinder_height_bounds [OF assms]
  by (simp add: on_capsule_surface_def ring_point_def circle_sq)

lemma cylinder_point_height:
  assumes r: "0 \<le> radius" and hl: "0 \<le> hl" and i: "i \<le> H"
  shows "\<bar>y_of (ring_point radius (- hl + 2 * hl * (real i / real H)) S j)\<bar> \<le> hl + radius"
  using cylinder_height_bounds [OF hl i] r
  by (simp add: y_of_def ring_point_def)

lemma pole_on_surface:
  assumes r: "0 \<le> radius" and hl: "0 \<le> hl"
  shows "on_capsule_surface radius hl (0, - hl - radius, 0)"
    and "on_capsule_surface radius hl (0, hl + radius, 0)"
  using assms by (auto simp: on_capsule_surface_def abs_le_iff)

lemma capsule_vertices_cases:
  assumes "v \<in> set (capsule_vertices radius hl S H C)"
  shows "(\<exists>i. 1 \<le> i \<and> i \<le> C \<and> v \<in> set (bottom_cap_ring radius hl S C i)) \<or>
         (\<exists>i. i \<le> H \<and> v \<in> set (cylinder_ring radius hl S H i)) \<or>
         (\<exists>i. 1 \<le> i \<and> i \<le> C \<and> v \<in> set (top_cap_ring radius hl S C i)) \<or>
         v = (0, - hl - radius, 0) \<or> v = (0, hl + radius, 0)"
  using assms by (auto simp: capsule_vertices_def simp del: upt_Suc)

lemma bottom_cap_ring_on_surface:
  assumes r: "0 \<le> radius" and hl: "0 \<le> hl" and i: "1 \<le> i" "i \<le> C"
    and v: "v \<in> set (bottom_cap_ring radius hl S C i)"
  shows "on_capsule_surface radius hl v \<and> \<bar>y_of v\<bar> \<le> hl + radius"
  using v cap_point_on_surface(1) [OF r hl cap_sin_bounds [OF i]]
    cap_point_height(1) [OF r hl cap_sin_bounds [OF i]]
  by (auto simp: bottom_cap_ring_def)

lemma top_cap_ring_on_surface:
  assumes r: "0 \<le> radius" and hl: "0 \<le> hl" and i: "1 \<le> i" "i \<le> C"
    and v: "v \<in> set (top_cap_ring radius hl S C i)"
  shows "on_capsule_surface radius hl v \<and> \<bar>y_of v\<bar> \<le> hl + radius"
  using v cap_point_on_surface(2) [OF r hl cap_sin_bounds [OF i]]
    cap_point_height(2) [OF r hl cap_sin_bounds [OF i]]
  by (auto simp: top_cap_ring_def)

lemma cylinder_ring_on_surface:
  assumes r: "0 \<le> radius" and hl: "0 \<le> hl" and i: "i \<le> H"
    and v: "v \<in> set (cylinder_ring radius hl S H i)"
  shows "on_capsule_surface radius hl v \<and> \<bar>y_of v\<bar> \<le> hl + radius"
  using v cylinder_point_on_surface [OF hl i] cylinder_point_height [OF r hl i]
  by (auto simp: cylinder_ring_def)

lemma capsule_vertex_on_surface:
  assumes r: "0 \<le> radius" and hl: "0 \<le> hl"
    and v: "v \<in> set (capsule_vertices radius hl S H C)"
  shows "on_capsule_surface radius hl v" and "\<bar>y_of v\<bar> \<le> hl + radius"
proof -
  from capsule_vertices_cases [OF v] consider
      (bottom) i where "1 \<le> i" "i \<le> C" "v \<in> set (bottom_cap_ring radius hl S C i)"
    | (cylinder) i where "i \<le> H" "v \<in> set (cylinder_ring radius hl S H i)"
    | (top) i where "1 \<le> i" "i \<le> C" "v \<in> set (top_cap_ring radius hl S C i)"
    | (bottom_pole) "v = (0, - hl - radius, 0)"
    | (top_pole) "v = (0, hl + radius, 0)"
    by blast
  then have "on_capsule_surface radius hl v \<and> \<bar>y_of v\<bar> \<le> hl + radius"
  proof cases
    case bottom
    then show ?thesis by (rule bottom_cap_ring_on_surface [OF r hl])
  next
    case cylinder
    then show ?thesis by (rule cylinder_ring_on_surface [OF r hl])
  next
    case top
    then show ?thesis by (rule top_cap_ring_on_surface [OF r hl])
  next
    case bottom_pole
    then show ?thesis using pole_on_surface(1) [OF r hl] r hl by (simp add: y_of_def)
  next
    case top_pole
    then show ?thesis using pole_on_surface(2) [OF r hl] r hl by (simp add: y_of_def)
  qed
  then show "on_capsule_surface radius hl v" and "\<bar>y_of v\<bar> \<le> hl + radius" by simp_all
qed

lemma poles_in_capsule_vertices:
  "(0, - hl - radius, 0) \<in> set (capsule_vertices radius hl S H C)"
  "(0, hl + radius, 0) \<in> set (capsule_vertices radius hl S H C)"
  by (simp_all add: capsule_vertices_def del: upt_Suc)

lemma capsule_height_extremes:
  assumes r: "0 \<le> radius" and hl: "0 \<le> hl"
  shows "Max (y_of ` set (capsule_vertices radius hl S H C)) = hl + radius"
    and "Min (y_of ` set (capsule_vertices radius hl S H C)) = - (hl + radius)"
proof -
  let ?Y = "y_of ` set (capsule_vertices radius hl S H C)"
  have fin: "finite ?Y" by simp
  have top: "hl + radius \<in> ?Y"
    using poles_in_capsule_vertices(2) [of hl radius S H C]
    by (force simp: y_of_def image_iff)
  have bot: "- (hl + radius) \<in> ?Y"
    using poles_in_capsule_vertices(1) [of hl radius S H C]
    by (force simp: y_of_def image_iff)
  have bound: "\<bar>y\<bar> \<le> hl + radius" if "y \<in> ?Y" for y
    using that capsule_vertex_on_surface(2) [OF r hl] by auto
  have hi: "y \<le> hl + radius" if "y \<in> ?Y" for y
    using bound [OF that] by simp
  have lo: "- (hl + radius) \<le> y" if "y \<in> ?Y" for y
    using bound [OF that] by simp
  show "Max ?Y = hl + radius"
    by (rule Max_eqI [OF fin hi top])
  show "Min ?Y = - (hl + radius)"
    by (rule Min_eqI [OF fin lo bot])
qed

section \<open>The rings at the ends of the caps\<close>

lemma triangle_area_same [simp]: "triangle_area p p p = 0"
  by (cases p) (simp add: triangle_area_def vsub_def cross_def vlength_def)

lemma bottom_ring_at_pole:
  assumes "C \<noteq> 0" and "v \<in> set (bottom_cap_ring radius hl S C C)"
  shows "v = (0, - hl - radius, 0)"
  using assms by (auto simp: bottom_cap_ring_def ring_point_def)

lemma top_ring_at_pole:
  assumes "C \<noteq> 0" and "v \<in> set (top_cap_ring radius hl S C C)"
  shows "v = (0, hl + radius, 0)"
  using assms by (auto simp: top_cap_ring_def ring_point_def)

lemma first_ring_vertex:
  assumes C: "1 \<le> C" and j: "j < S"
  shows "capsule_vertices radius hl S H C ! ring_vertex S 0 j = (0, - hl - radius, 0)"
proof -
  have "capsule_ring radius hl S H C 0 ! j \<in> set (bottom_cap_ring radius hl S C C)"
    using C j by (simp add: capsule_ring_def)
  then have "capsule_ring radius hl S H C 0 ! j = (0, - hl - radius, 0)"
    using C by (intro bottom_ring_at_pole) simp_all
  then show ?thesis
    using j by (simp add: capsule_vertices_nth)
qed

lemma last_ring_vertex:
  assumes C: "1 \<le> C" and j: "j < S"
  shows "capsule_vertices radius hl S H C ! ring_vertex S (2 * C + H) j = (0, hl + radius, 0)"
proof -
  have "capsule_ring radius hl S H C (2 * C + H) = top_cap_ring radius hl S C C"
    using C by (simp add: capsule_ring_def)
  then have "capsule_ring radius hl S H C (2 * C + H) ! j \<in> set (top_cap_ring radius hl S C C)"
    using j by simp
  then have "capsule_ring radius hl S H C (2 * C + H) ! j = (0, hl + radius, 0)"
    using C by (intro top_ring_at_pole) simp_all
  then show ?thesis
    using j by (simp add: capsule_vertices_nth)
qed

lemma fan_faces_zero_area:
  assumes S: "3 \<le> S" and C: "1 \<le> C"
    and f: "f \<in> set (capsule_faces S (2 * C + H + 1))" and l: "length f = 3"
  shows "face_area (capsule_vertices radius hl S H C) f = 0"
proof -
  let ?R = "2 * C + H + 1"
  have S0: "S \<noteq> 0" using S by simp
  from f l have "f \<in> set (filter (\<lambda>f. length f = 3) (capsule_faces S ?R))" by simp
  then consider (bottom) j where "j < S" "f = bottom_face S (?R * S) j"
    | (top) j where "j < S" "f = top_face S (?R - 1) (?R * S + 1) j"
    unfolding triangles_of_capsule_faces by auto
  then show ?thesis
  proof cases
    case bottom
    then show ?thesis
      using first_ring_vertex [OF C, of _ S radius hl H] capsule_vertices_poles(1) [of radius hl S H C] S0
      by (simp add: face_area_def bottom_face_def)
  next
    case top
    then show ?thesis
      using last_ring_vertex [OF C, of _ S radius hl H] capsule_vertices_poles(2) [of radius hl S H C] S0
      by (simp add: face_area_def top_face_def)
  qed
qed

lemma filter_concat_none:
  "\<forall>xs\<in>set xss. \<forall>x\<in>set xs. \<not> P x \<Longrightarrow> filter P (concat xss) = []"
  by (induction xss) auto

lemma cap_sin_less_one:
  assumes "1 \<le> i" and "i < C"
  shows "sin ((pi / 2) * (real i / real C)) < 1"
proof -
  have "real i / real C < 1" using assms by simp
  then have "(pi / 2) * (real i / real C) < (pi / 2) * 1"
    by (intro mult_strict_left_mono) simp_all
  moreover have "- (pi / 2) \<le> (pi / 2) * (real i / real C)"
    using cap_angle_bounds(1) [of i C] assms pi_ge_zero by linarith
  ultimately have "sin ((pi / 2) * (real i / real C)) < sin (pi / 2)"
    by (intro sin_monotone_2pi) simp_all
  then show ?thesis by simp
qed

lemma y_of_bottom_cap_ring:
  "v \<in> set (bottom_cap_ring radius hl S C i) \<Longrightarrow>
   y_of v = - hl - radius * sin ((pi / 2) * (real i / real C))"
  by (auto simp: bottom_cap_ring_def ring_point_def y_of_def)

lemma y_of_top_cap_ring:
  "v \<in> set (top_cap_ring radius hl S C i) \<Longrightarrow>
   y_of v = hl + radius * sin ((pi / 2) * (real i / real C))"
  by (auto simp: top_cap_ring_def ring_point_def y_of_def)

lemma y_of_cylinder_ring:
  "v \<in> set (cylinder_ring radius hl S H i) \<Longrightarrow>
   y_of v = - hl + 2 * hl * (real i / real H)"
  by (auto simp: cylinder_ring_def ring_point_def y_of_def)

lemma inner_bottom_ring_above_pole:
  assumes r: "0 < radius" and i: "1 \<le> i" "i < C"
    and v: "v \<in> set (bottom_cap_ring radius hl S C i)"
  shows "- hl - radius < y_of v" and "y_of v \<le> - hl"
proof -
  have "radius * sin ((pi / 2) * (real i / real C)) < radius * 1"
    using r cap_sin_less_one [OF i] by (intro mult_strict_left_mono) simp_all
  moreover have "0 \<le> radius * sin ((pi / 2) * (real i / real C))"
    using r cap_sin_bounds [of i C] i by simp
  ultimately show "- hl - radius < y_of v" and "y_of v \<le> - hl"
    using y_of_bottom_cap_ring [OF v] by simp_all
qed

lemma inner_top_ring_below_pole:
  assumes r: "0 < radius" and i: "1 \<le> i" "i < C"
    and v: "v \<in> set (top_cap_ring radius hl S C i)"
  shows "y_of v < hl + radius" and "hl \<le> y_of v"
proof -
  have "radius * sin ((pi / 2) * (real i / real C)) < radius * 1"
    using r cap_sin_less_one [OF i] by (intro mult_strict_left_mono) simp_all
  moreover have "0 \<le> radius * sin ((pi / 2) * (real i / real C))"
    using r cap_sin_bounds [of i C] i by simp
  ultimately show "y_of v < hl + radius" and "hl \<le> y_of v"
    using y_of_top_cap_ring [OF v] by simp_all
qed

lemma cap_ring_heights:
  assumes r: "0 < radius" and i: "1 \<le> i" "i \<le> C"
  shows "v \<in> set (bottom_cap_ring radius hl S C i) \<Longrightarrow> y_of v \<le> - hl"
    and "v \<in> set (top_cap_ring radius hl S C i) \<Longrightarrow> hl \<le> y_of v"
proof -
  have "0 \<le> radius * sin ((pi / 2) * (real i / real C))"
    using r cap_sin_bounds [OF i] by simp
  then show "v \<in> set (bottom_cap_ring radius hl S C i) \<Longrightarrow> y_of v \<le> - hl"
    and "v \<in> set (top_cap_ring radius hl S C i) \<Longrightarrow> hl \<le> y_of v"
    using y_of_bottom_cap_ring [of v radius hl S C i] y_of_top_cap_ring [of v radius hl S C i]
    by simp_all
qed

lemma cylinder_ring_heights:
  assumes hl: "0 \<le> hl" and i: "i \<le> H" and v: "v \<in> set (cylinder_ring radius hl S H i)"
  shows "- hl \<le> y_of v" and "y_of v \<le> hl"
  using cylinder_height_bounds [OF hl i] y_of_cylinder_ring [OF v] by (simp_all add: abs_le_iff)

lemma bottom_pole_count:
  assumes r: "0 < radius" and hl: "0 \<le> hl" and C: "1 \<le> C"
  shows "length (filter (\<lambda>v. v = (0, - hl - radius, 0)) (capsule_vertices radius hl S H C)) = S + 1"
proof -
  let ?p = "(0, - hl - radius, 0) :: vec3"
  let ?P = "\<lambda>v. v = ?p"
  have yp: "y_of ?p = - hl - radius" by (simp add: y_of_def)
  have C0: "C \<noteq> 0" using C by simp
  have rv: "rev [1..<Suc C] = C # rev [1..<C]" using C by simp
  have first: "filter ?P (bottom_cap_ring radius hl S C C) = bottom_cap_ring radius hl S C C"
    by (rule filter_True) (auto dest: bottom_ring_at_pole [OF C0])
  have inner: "filter ?P (concat (map (bottom_cap_ring radius hl S C) (rev [1..<C]))) = []"
  proof (rule filter_concat_none, intro ballI)
    fix xs v assume "xs \<in> set (map (bottom_cap_ring radius hl S C) (rev [1..<C]))" "v \<in> set xs"
    then obtain i where "1 \<le> i" "i < C" "v \<in> set (bottom_cap_ring radius hl S C i)" by auto
    from inner_bottom_ring_above_pole(1) [OF r this] yp show "v \<noteq> ?p" by auto
  qed
  have cyl: "filter ?P (concat (map (cylinder_ring radius hl S H) [0..<Suc H])) = []"
  proof (rule filter_concat_none, intro ballI)
    fix xs v assume "xs \<in> set (map (cylinder_ring radius hl S H) [0..<Suc H])" "v \<in> set xs"
    then obtain i where "i \<le> H" "v \<in> set (cylinder_ring radius hl S H i)"
      by (auto simp: less_Suc_eq_le simp del: upt_Suc)
    from cylinder_ring_heights(1) [OF hl this] r yp show "v \<noteq> ?p" by auto
  qed
  have top: "filter ?P (concat (map (top_cap_ring radius hl S C) [1..<Suc C])) = []"
  proof (rule filter_concat_none, intro ballI)
    fix xs v assume "xs \<in> set (map (top_cap_ring radius hl S C) [1..<Suc C])" "v \<in> set xs"
    then obtain i where "1 \<le> i" "i \<le> C" "v \<in> set (top_cap_ring radius hl S C i)"
      by (auto simp del: upt_Suc)
    from cap_ring_heights(2) [OF r this] r hl yp show "v \<noteq> ?p" by auto
  qed
  have poles: "filter ?P [?p, (0, hl + radius, 0)] = [?p]"
    using r hl by simp
  show ?thesis
    unfolding capsule_vertices_def rv
    by (simp only: list.map concat.simps filter_append first inner cyl top poles)
       simp
qed

lemma top_pole_count:
  assumes r: "0 < radius" and hl: "0 \<le> hl" and C: "1 \<le> C"
  shows "length (filter (\<lambda>v. v = (0, hl + radius, 0)) (capsule_vertices radius hl S H C)) = S + 1"
proof -
  let ?p = "(0, hl + radius, 0) :: vec3"
  let ?P = "\<lambda>v. v = ?p"
  have yp: "y_of ?p = hl + radius" by (simp add: y_of_def)
  have C0: "C \<noteq> 0" using C by simp
  have tv: "[1..<Suc C] = [1..<C] @ [C]" using C by simp
  have last: "filter ?P (top_cap_ring radius hl S C C) = top_cap_ring radius hl S C C"
    by (rule filter_True) (auto dest: top_ring_at_pole [OF C0])
  have inner: "filter ?P (concat (map (top_cap_ring radius hl S C) [1..<C])) = []"
  proof (rule filter_concat_none, intro ballI)
    fix xs v assume "xs \<in> set (map (top_cap_ring radius hl S C) [1..<C])" "v \<in> set xs"
    then obtain i where "1 \<le> i" "i < C" "v \<in> set (top_cap_ring radius hl S C i)" by auto
    from inner_top_ring_below_pole(1) [OF r this] yp show "v \<noteq> ?p" by auto
  qed
  have cyl: "filter ?P (concat (map (cylinder_ring radius hl S H) [0..<Suc H])) = []"
  proof (rule filter_concat_none, intro ballI)
    fix xs v assume "xs \<in> set (map (cylinder_ring radius hl S H) [0..<Suc H])" "v \<in> set xs"
    then obtain i where "i \<le> H" "v \<in> set (cylinder_ring radius hl S H i)"
      by (auto simp: less_Suc_eq_le simp del: upt_Suc)
    from cylinder_ring_heights(2) [OF hl this] r yp show "v \<noteq> ?p" by auto
  qed
  have bottom: "filter ?P (concat (map (bottom_cap_ring radius hl S C) (rev [1..<Suc C]))) = []"
  proof (rule filter_concat_none, intro ballI)
    fix xs v assume "xs \<in> set (map (bottom_cap_ring radius hl S C) (rev [1..<Suc C]))" "v \<in> set xs"
    then obtain i where "1 \<le> i" "i \<le> C" "v \<in> set (bottom_cap_ring radius hl S C i)"
      by (auto simp del: upt_Suc)
    from cap_ring_heights(1) [OF r this] r hl yp show "v \<noteq> ?p" by auto
  qed
  have poles: "filter ?P [(0, - hl - radius, 0), ?p] = [?p]"
    using r hl by simp
  have "concat (map (top_cap_ring radius hl S C) [1..<Suc C]) =
        concat (map (top_cap_ring radius hl S C) [1..<C]) @ top_cap_ring radius hl S C C"
    unfolding tv by simp
  then show ?thesis
    unfolding capsule_vertices_def
    by (simp only: filter_append last inner cyl bottom poles) simp
qed

section \<open>Where create_capsule raises\<close>

text \<open>
  The bounds on the segment counts are needed.  With no height segment the division
  \<^verbatim>\<open>i / rings\<close> is a division by zero; with two vertices around a ring the second
  quadrilateral between two rings is on the vertices of the first, which the mesh refuses.
\<close>

lemma create_capsule_no_height:
  "create_capsule name radius half_length 3 0 0 = Inl ZeroDivisionError"
  by (simp add: create_capsule_def range_down_def range1_def range2_def truediv_def
        upto.simps Let_def)

lemma create_capsule_two_around:
  "create_capsule name radius half_length 2 1 0 = Inl ValueError"
  by (simp add: create_capsule_def range_down_def range1_def range2_def truediv_def
        upto.simps Let_def verts_new_def bmesh_new_def py_mod_def py_index2_def py_index_def
        faces_new_def face_exists_def insert_commute)

section \<open>The mirror image of a capsule\<close>

text \<open>
  With an even number of segments around a ring (the script uses 16 and 10), the vertices
  of a capsule are, in exact arithmetic, their own mirror image in the plane \<open>x = 0\<close>:
  the mirror image of point \<open>j\<close> of a ring is the point of the same ring at the angle
  \<open>pi\<close> minus its own.
\<close>

lemma ring_point_mirror:
  assumes S: "even S" and j: "j < S"
  shows "\<exists>j' < S. ring_point rr y S j' =
           (- (rr * cos (2 * pi * real j / real S)), y, rr * sin (2 * pi * real j / real S))"
proof -
  from S obtain m where m: "S = 2 * m" by (auto elim: evenE)
  with j have m0: "0 < m" by simp
  let ?t = "2 * pi * real j / real S"
  show ?thesis
  proof (cases "j \<le> m")
    case True
    have "2 * pi * real (m - j) / real S = pi - ?t"
      using True m0 by (simp add: m field_simps)
    then have "ring_point rr y S (m - j) = (- (rr * cos ?t), y, rr * sin ?t)"
      by (simp add: ring_point_def)
    moreover have "m - j < S" using m m0 by simp
    ultimately show ?thesis by blast
  next
    case False
    then have lt: "m + S - j < S" and le: "j \<le> m + S" using j m by simp_all
    have eq: "2 * pi * real (m + S - j) / real S = (pi - ?t) + 2 * pi"
      using le m0 by (simp add: m field_simps)
    have c: "cos ((pi - ?t) + 2 * pi) = - cos ?t"
      by (simp only: cos_periodic cos_pi_minus)
    have s: "sin ((pi - ?t) + 2 * pi) = sin ?t"
      by (simp only: sin_periodic sin_pi_minus)
    have "ring_point rr y S (m + S - j) = (- (rr * cos ?t), y, rr * sin ?t)"
      unfolding ring_point_def eq c s by simp
    with lt show ?thesis by blast
  qed
qed

lemma ring_mirror:
  assumes S: "even S" and v: "(x, y, z) \<in> set (map (ring_point rr y0 S) [0..<S])"
  shows "(- x, y, z) \<in> set (map (ring_point rr y0 S) [0..<S])"
proof -
  from v obtain j where j: "j < S" and e: "(x, y, z) = ring_point rr y0 S j" by auto
  from e have xyz: "x = rr * cos (2 * pi * real j / real S)" "y = y0"
    "z = rr * sin (2 * pi * real j / real S)"
    by (simp_all add: ring_point_def)
  from ring_point_mirror [OF S j, of rr y0] obtain j' where j': "j' < S"
    and m: "ring_point rr y0 S j' =
       (- (rr * cos (2 * pi * real j / real S)), y0, rr * sin (2 * pi * real j / real S))"
    by blast
  have "ring_point rr y0 S j' \<in> set (map (ring_point rr y0 S) [0..<S])"
    using j' by simp
  then show ?thesis unfolding m xyz .
qed

lemma capsule_vertices_set:
  "set (capsule_vertices radius hl S H C) =
     (\<Union>i \<in> {1..C}. set (bottom_cap_ring radius hl S C i)) \<union>
     (\<Union>i \<in> {0..H}. set (cylinder_ring radius hl S H i)) \<union>
     (\<Union>i \<in> {1..C}. set (top_cap_ring radius hl S C i)) \<union>
     {(0, - hl - radius, 0), (0, hl + radius, 0)}"
  by (auto simp: capsule_vertices_def less_Suc_eq_le simp del: upt_Suc)

lemma capsule_vertices_mirror:
  assumes S: "even S" and v: "(x, y, z) \<in> set (capsule_vertices radius hl S H C)"
  shows "(- x, y, z) \<in> set (capsule_vertices radius hl S H C)"
proof -
  have b: "(- x, y, z) \<in> set (bottom_cap_ring radius hl S C i)"
    if "(x, y, z) \<in> set (bottom_cap_ring radius hl S C i)" for i
    using that unfolding bottom_cap_ring_def by (rule ring_mirror [OF S])
  have c: "(- x, y, z) \<in> set (cylinder_ring radius hl S H i)"
    if "(x, y, z) \<in> set (cylinder_ring radius hl S H i)" for i
    using that unfolding cylinder_ring_def by (rule ring_mirror [OF S])
  have t: "(- x, y, z) \<in> set (top_cap_ring radius hl S C i)"
    if "(x, y, z) \<in> set (top_cap_ring radius hl S C i)" for i
    using that unfolding top_cap_ring_def by (rule ring_mirror [OF S])
  from v consider
      (bottom) i where "i \<in> {1..C}" "(x, y, z) \<in> set (bottom_cap_ring radius hl S C i)"
    | (cylinder) i where "i \<in> {0..H}" "(x, y, z) \<in> set (cylinder_ring radius hl S H i)"
    | (top) i where "i \<in> {1..C}" "(x, y, z) \<in> set (top_cap_ring radius hl S C i)"
    | (pole) "x = 0"
    unfolding capsule_vertices_set by auto
  then show ?thesis
  proof cases
    case bottom
    from b [OF bottom(2)] bottom(1) show ?thesis unfolding capsule_vertices_set by blast
  next
    case cylinder
    from c [OF cylinder(2)] cylinder(1) show ?thesis unfolding capsule_vertices_set by blast
  next
    case top
    from t [OF top(2)] top(1) show ?thesis unfolding capsule_vertices_set by blast
  next
    case pole
    with v show ?thesis by simp
  qed
qed

text \<open>
  The shape in exact arithmetic.  For a radius and a half-length that are not negative, every
  vertex of the real-valued model lies on the capsule: on the cylinder
  \<open>x\<^sup>2 + z\<^sup>2 = radius\<^sup>2\<close> where \<open>\<bar>y\<bar> \<le> half_length\<close>, and on the sphere of that radius about
  \<open>(0, half_length, 0)\<close> above it and about \<open>(0, - half_length, 0)\<close> below it; the greatest and
  the least height are \<open>half_length + radius\<close> and its negation.  The coordinates that the
  script computes are floating-point numbers, rounded by \<^verbatim>\<open>math.cos\<close>, \<^verbatim>\<open>math.sin\<close> and
  the arithmetic, and rounded again when the host stores them: these equations are not
  equations between those numbers, and nothing here says how far they are from holding.
\<close>

lemma exact_capsule_on_surface:
  assumes "3 \<le> S" and "1 \<le> H" and "0 \<le> radius" and "0 \<le> half_length"
  shows "\<exists>m. create_capsule name radius half_length (int S) (int H) (int C) = Inr m \<and>
           (\<forall>v \<in> set (vertices m). on_capsule_surface radius half_length v) \<and>
           Max (y_of ` set (vertices m)) = half_length + radius \<and>
           Min (y_of ` set (vertices m)) = - (half_length + radius)"
  using create_capsule_eq [OF assms(1,2), of name radius half_length C]
    capsule_vertex_on_surface(1) [OF assms(3,4)] capsule_height_extremes [OF assms(3,4), of S H C]
  by simp

section \<open>The claims about create_capsule\<close>

text \<open>
  Claim C1.  For ring, height and cap segment counts \<open>S\<close>, \<open>H\<close> and \<open>C\<close> with at least
  three vertices around a ring and at least one height segment (the defaults 12, 6, 6 and
  the script's own 16, 8, 6 and 10, 4, 4 among them), \<open>create_capsule\<close> returns a mesh,
  and the mesh has \<open>S * (2 * C + H + 1) + 2\<close> vertices: \<open>S\<close> for each of the \<open>C\<close> rings
  of the bottom cap, the \<open>H + 1\<close> rings of the cylinder and the \<open>C\<close> rings of the top cap,
  and the two poles.
\<close>

theorem capsule_vertex_count:
  assumes "3 \<le> S" and "1 \<le> H"
  shows "\<exists>m. create_capsule name radius half_length (int S) (int H) (int C) = Inr m \<and>
             length (vertices m) = S * (2 * C + H + 1) + 2"
  using create_capsule_eq [OF assms] by (simp add: length_capsule_vertices)

theorem capsule_vertex_count_witness:
  "(\<exists>m. create_capsule ''BeanTorso'' (32 / 100) (35 / 100) 16 8 6 = Inr m \<and>
        length (vertices m) = 338) \<and>
   (\<exists>m. create_capsule ''Thigh_L'' (11 / 100) (22 / 100) 10 4 4 = Inr m \<and>
        length (vertices m) = 132) \<and>
   (\<exists>m. create_capsule ''Capsule'' 1 1 12 6 6 = Inr m \<and>
        length (vertices m) = 230)"
  using capsule_vertex_count [of 16 8 "''BeanTorso''" "32 / 100" "35 / 100" 6]
    capsule_vertex_count [of 10 4 "''Thigh_L''" "11 / 100" "22 / 100" 4]
    capsule_vertex_count [of 12 6 "''Capsule''" 1 1 6]
  by simp

text \<open>
  Claim C4.  The faces of the mesh are those of the stitching, in the order of their
  creation and no others: for each of the \<open>2 * C + H\<close> pairs of consecutive rings and each
  of the \<open>S\<close> positions \<open>j\<close> around the ring, the quadrilateral on the vertices \<open>j\<close> and
  \<open>j + 1\<close> (modulo \<open>S\<close>) of both rings; then \<open>S\<close> triangles joining the bottom pole to the
  first ring; then \<open>S\<close> triangles joining the top pole to the last ring.  Here
  \<open>ring_vertex S i j\<close> is the vertex \<open>j\<close> of ring \<open>i\<close>, rings counted from the bottom, and the
  poles are the two vertices created last.
\<close>

theorem capsule_faces_stitched:
  assumes "3 \<le> S" and "1 \<le> H"
  shows "\<exists>m. create_capsule name radius half_length (int S) (int H) (int C) = Inr m \<and>
           polygons m =
             map (\<lambda>(i, j). quad_face S i j) (List.product [0..<2 * C + H] [0..<S]) @
             map (bottom_face S ((2 * C + H + 1) * S)) [0..<S] @
             map (top_face S (2 * C + H) ((2 * C + H + 1) * S + 1)) [0..<S] \<and>
           length (filter (\<lambda>f. length f = 4) (polygons m)) = (2 * C + H) * S \<and>
           length (filter (\<lambda>f. length f = 3) (polygons m)) = S + S \<and>
           length (polygons m) = (2 * C + H) * S + S + S \<and>
           (\<forall>i < 2 * C + H + 1. \<forall>j < S.
              vertices m ! ring_vertex S i j = capsule_ring radius half_length S H C i ! j) \<and>
           vertices m ! ((2 * C + H + 1) * S) = (0, - half_length - radius, 0) \<and>
           vertices m ! ((2 * C + H + 1) * S + 1) = (0, half_length + radius, 0)"
proof -
  let ?R = "2 * C + H + 1"
  let ?m = "\<lparr>mesh_name = name, vertices = capsule_vertices radius half_length S H C,
             polygons = capsule_faces S ?R\<rparr>"
  have "create_capsule name radius half_length (int S) (int H) (int C) = Inr ?m"
    by (rule create_capsule_eq [OF assms])
  moreover have "polygons ?m =
             map (\<lambda>(i, j). quad_face S i j) (List.product [0..<2 * C + H] [0..<S]) @
             map (bottom_face S (?R * S)) [0..<S] @
             map (top_face S (2 * C + H) (?R * S + 1)) [0..<S]"
    by (simp add: capsule_faces_def)
  moreover have "length (filter (\<lambda>f. length f = 4) (polygons ?m)) = (2 * C + H) * S"
    by (simp add: quads_of_capsule_faces)
  moreover have "length (filter (\<lambda>f. length f = 3) (polygons ?m)) = S + S"
    by (simp add: triangles_of_capsule_faces)
  moreover have "length (polygons ?m) = (2 * C + H) * S + S + S"
    by (simp add: length_capsule_faces)
  moreover have "\<forall>i < ?R. \<forall>j < S.
      vertices ?m ! ring_vertex S i j = capsule_ring radius half_length S H C i ! j"
    by (simp add: capsule_vertices_nth)
  moreover have "vertices ?m ! (?R * S) = (0, - half_length - radius, 0)"
    "vertices ?m ! (?R * S + 1) = (0, half_length + radius, 0)"
    using capsule_vertices_poles [of radius half_length S H C] by simp_all
  ultimately show ?thesis by blast
qed

theorem capsule_faces_stitched_witness:
  "(\<exists>m. create_capsule ''Capsule'' 1 1 3 1 0 = Inr m \<and>
        polygons m = [[0, 1, 4, 3], [1, 2, 5, 4], [2, 0, 3, 5],
                      [6, 1, 0], [6, 2, 1], [6, 0, 2],
                      [7, 3, 4], [7, 4, 5], [7, 5, 3]]) \<and>
   (\<exists>m. create_capsule ''BeanTorso'' (32 / 100) (35 / 100) 16 8 6 = Inr m \<and>
        length (filter (\<lambda>f. length f = 4) (polygons m)) = 320 \<and>
        length (filter (\<lambda>f. length f = 3) (polygons m)) = 32 \<and>
        length (polygons m) = 352)"
proof
  have "(3::nat) \<le> 3" "(1::nat) \<le> 1" by simp_all
  from capsule_faces_stitched [OF this, of "''Capsule''" 1 1 0]
  obtain m where m: "create_capsule ''Capsule'' 1 1 (int 3) (int 1) (int 0) = Inr m"
    and p: "polygons m =
             map (\<lambda>(i, j). quad_face 3 i j) (List.product [0..<2 * 0 + 1] [0..<3]) @
             map (bottom_face 3 ((2 * 0 + 1 + 1) * 3)) [0..<3] @
             map (top_face 3 (2 * 0 + 1) ((2 * 0 + 1 + 1) * 3 + 1)) [0..<3]"
    by blast
  have "polygons m = [[0, 1, 4, 3], [1, 2, 5, 4], [2, 0, 3, 5],
                      [6, 1, 0], [6, 2, 1], [6, 0, 2],
                      [7, 3, 4], [7, 4, 5], [7, 5, 3]]"
  proof -
    have u: "[0..<(3::nat)] = [0, 1, 2]" by code_simp
    show ?thesis
      unfolding p
      by (simp add: u quad_face_def bottom_face_def top_face_def ring_vertex_def next_around_def)
  qed
  with m show "\<exists>m. create_capsule ''Capsule'' 1 1 3 1 0 = Inr m \<and>
        polygons m = [[0, 1, 4, 3], [1, 2, 5, 4], [2, 0, 3, 5],
                      [6, 1, 0], [6, 2, 1], [6, 0, 2],
                      [7, 3, 4], [7, 4, 5], [7, 5, 3]]"
    by simp
  have "(3::nat) \<le> 16" "(1::nat) \<le> 8" by simp_all
  from capsule_faces_stitched [OF this, of "''BeanTorso''" "32 / 100" "35 / 100" 6]
  obtain m where m: "create_capsule ''BeanTorso'' (32 / 100) (35 / 100) (int 16) (int 8) (int 6) = Inr m"
    and c: "length (filter (\<lambda>f. length f = 4) (polygons m)) = (2 * 6 + 8) * 16"
      "length (filter (\<lambda>f. length f = 3) (polygons m)) = 16 + 16"
      "length (polygons m) = (2 * 6 + 8) * 16 + 16 + 16"
    by blast
  then show "\<exists>m. create_capsule ''BeanTorso'' (32 / 100) (35 / 100) 16 8 6 = Inr m \<and>
        length (filter (\<lambda>f. length f = 4) (polygons m)) = 320 \<and>
        length (filter (\<lambda>f. length f = 3) (polygons m)) = 32 \<and>
        length (polygons m) = 352"
    by simp
qed

text \<open>
  Claim C8.  With at least one cap ring, the first ring of the bottom cap and the last
  ring of the top cap are made at the angle \<open>pi / 2\<close>, where the ring radius
  \<open>radius * cos (pi / 2)\<close> is 0 in exact arithmetic: every vertex of the first ring is at the
  position of the bottom pole, every vertex of the last ring at that of the top pole, and
  every triangle of the mesh (the two pole fans) has area 0.  For a positive radius and a
  half-length that is not negative, exactly \<open>S + 1\<close> vertices lie at each pole position.
\<close>

theorem cap_end_rings_degenerate:
  assumes "3 \<le> S" and "1 \<le> H" and "1 \<le> C"
  shows "\<exists>m. create_capsule name radius half_length (int S) (int H) (int C) = Inr m \<and>
           (\<forall>j < S. vertices m ! ring_vertex S 0 j = (0, - half_length - radius, 0)) \<and>
           (\<forall>j < S. vertices m ! ring_vertex S (2 * C + H) j = (0, half_length + radius, 0)) \<and>
           vertices m ! ((2 * C + H + 1) * S) = (0, - half_length - radius, 0) \<and>
           vertices m ! ((2 * C + H + 1) * S + 1) = (0, half_length + radius, 0) \<and>
           (\<forall>f \<in> set (polygons m). length f = 3 \<longrightarrow> face_area (vertices m) f = 0) \<and>
           (0 < radius \<and> 0 \<le> half_length \<longrightarrow>
              length (filter (\<lambda>v. v = (0, - half_length - radius, 0)) (vertices m)) = S + 1 \<and>
              length (filter (\<lambda>v. v = (0, half_length + radius, 0)) (vertices m)) = S + 1)"
proof -
  let ?R = "2 * C + H + 1"
  let ?m = "\<lparr>mesh_name = name, vertices = capsule_vertices radius half_length S H C,
             polygons = capsule_faces S ?R\<rparr>"
  have "create_capsule name radius half_length (int S) (int H) (int C) = Inr ?m"
    by (rule create_capsule_eq [OF assms(1,2)])
  moreover have "\<forall>j < S. vertices ?m ! ring_vertex S 0 j = (0, - half_length - radius, 0)"
    using first_ring_vertex [OF assms(3)] by simp
  moreover have "\<forall>j < S. vertices ?m ! ring_vertex S (2 * C + H) j = (0, half_length + radius, 0)"
    using last_ring_vertex [OF assms(3)] by simp
  moreover have "vertices ?m ! (?R * S) = (0, - half_length - radius, 0)"
    "vertices ?m ! (?R * S + 1) = (0, half_length + radius, 0)"
    using capsule_vertices_poles [of radius half_length S H C] by simp_all
  moreover have "\<forall>f \<in> set (polygons ?m). length f = 3 \<longrightarrow> face_area (vertices ?m) f = 0"
    using fan_faces_zero_area [OF assms(1,3)] by simp
  moreover have "0 < radius \<and> 0 \<le> half_length \<longrightarrow>
      length (filter (\<lambda>v. v = (0, - half_length - radius, 0)) (vertices ?m)) = S + 1 \<and>
      length (filter (\<lambda>v. v = (0, half_length + radius, 0)) (vertices ?m)) = S + 1"
    using bottom_pole_count [OF _ _ assms(3)] top_pole_count [OF _ _ assms(3)] by simp
  ultimately show ?thesis by blast
qed

theorem cap_end_rings_degenerate_witness:
  "\<exists>m. create_capsule ''Thigh_L'' (11 / 100) (22 / 100) 10 4 4 = Inr m \<and>
       vertices m ! 0 = (0, - (33 / 100), 0) \<and>
       vertices m ! 9 = (0, - (33 / 100), 0) \<and>
       vertices m ! 120 = (0, 33 / 100, 0) \<and>
       vertices m ! 130 = (0, - (33 / 100), 0) \<and>
       vertices m ! 131 = (0, 33 / 100, 0) \<and>
       length (filter (\<lambda>v. v = (0, - (33 / 100), 0)) (vertices m)) = 11 \<and>
       length (filter (\<lambda>v. v = (0, 33 / 100, 0)) (vertices m)) = 11"
proof -
  have "(3::nat) \<le> 10" "(1::nat) \<le> 4" "(1::nat) \<le> 4" by simp_all
  from cap_end_rings_degenerate [OF this, of "''Thigh_L''" "11 / 100" "22 / 100"]
  obtain m where m: "create_capsule ''Thigh_L'' (11 / 100) (22 / 100) (int 10) (int 4) (int 4) = Inr m"
    and b: "\<forall>j < 10. vertices m ! ring_vertex 10 0 j = (0, - (22 / 100) - 11 / 100, 0)"
    and t: "\<forall>j < 10. vertices m ! ring_vertex 10 (2 * 4 + 4) j = (0, 22 / 100 + 11 / 100, 0)"
    and p: "vertices m ! ((2 * 4 + 4 + 1) * 10) = (0, - (22 / 100) - 11 / 100, 0)"
      "vertices m ! ((2 * 4 + 4 + 1) * 10 + 1) = (0, 22 / 100 + 11 / 100, 0)"
    and c: "(0::real) < 11 / 100 \<and> (0::real) \<le> 22 / 100 \<longrightarrow>
      length (filter (\<lambda>v. v = (0, - (22 / 100) - 11 / 100, 0)) (vertices m)) = 10 + 1 \<and>
      length (filter (\<lambda>v. v = (0, 22 / 100 + 11 / 100, 0)) (vertices m)) = 10 + 1"
    by blast
  from b have "vertices m ! ring_vertex 10 0 0 = (0, - (22 / 100) - 11 / 100, 0)"
    "vertices m ! ring_vertex 10 0 9 = (0, - (22 / 100) - 11 / 100, 0)" by simp_all
  moreover from t have "vertices m ! ring_vertex 10 (2 * 4 + 4) 0 = (0, 22 / 100 + 11 / 100, 0)"
    by simp
  ultimately show ?thesis
    using m p c by (simp add: ring_vertex_def)
qed

section \<open>What create_armature builds\<close>

lemma update_fresh:
  "h \<notin> fst ` set objs \<Longrightarrow>
   map (\<lambda>(k, ob). if k = h then (k, f ob) else (k, ob)) objs = objs"
  by (induction objs) auto

lemma map_add_fresh:
  "h \<notin> fst ` set objs \<Longrightarrow> (m ++ map_of objs) h = m h"
  by (simp add: map_add_def map_of_eq_None_iff [THEN iffD2])

lemma create_armature_eq:
  assumes "sc_next sc \<notin> fst ` set (sc_objects sc)"
  shows "create_armature sc =
     Inr (sc_next sc,
          sc\<lparr>sc_objects := sc_objects sc @
               [(sc_next sc,
                 \<lparr>ob_name = ''BeanArmature'', ob_kind = ARMATURE, ob_selected = False,
                  ob_materials = [], ob_modifiers = [], ob_parent = None,
                  ob_location = (0, 0, 0), ob_rotation_euler = (0, 0, 0),
                  ob_bones = bean_bones\<rparr>)],
             sc_next := Suc (sc_next sc), sc_active := Some (sc_next sc)\<rparr>)"
  using assms
  by (simp add: create_armature_def root_bone_section_def head_bone_section_def
        left_arm_section_def right_arm_section_def left_leg_section_def right_leg_section_def
        objects_new_def set_active_def mode_set_def
        object_operator_def active_object_def get_object_def update_object_def has_object_def
        edit_bones_new_def update_fresh map_add_fresh
        set_head_def set_tail_def set_parent_def set_use_connect_def update_bone_def
        get_bone_def bean_bones_def eval_nat_numeral Let_def)

lemma create_armature_object:
  assumes "sc_next sc \<notin> fst ` set (sc_objects sc)"
  shows "\<exists>arm sc' ob. create_armature sc = Inr (arm, sc') \<and> get_object arm sc' = Inr ob \<and>
           ob_name ob = ''BeanArmature'' \<and> ob_kind ob = ARMATURE \<and> ob_bones ob = bean_bones"
  using assms
  by (simp add: create_armature_eq get_object_def map_add_fresh)

lemma bean_bones_hierarchy:
  "map (\<lambda>b. (bone_name b, parent_name bean_bones b)) bean_bones =
     [(''torso'', None), (''head'', Some ''torso''),
      (''l_upperArm'', Some ''torso''), (''l_foreArm'', Some ''l_upperArm''),
      (''r_upperArm'', Some ''torso''), (''r_foreArm'', Some ''r_upperArm''),
      (''l_thigh'', Some ''torso''), (''l_shin'', Some ''l_thigh''),
      (''r_thigh'', Some ''torso''), (''r_shin'', Some ''r_thigh'')]"
  by (simp add: bean_bones_def parent_name_def)

lemma bean_bones_paths:
  "map (path_to_root bean_bones 10) [0..<10] =
     [[''torso''], [''head'', ''torso''],
      [''l_upperArm'', ''torso''], [''l_foreArm'', ''l_upperArm'', ''torso''],
      [''r_upperArm'', ''torso''], [''r_foreArm'', ''r_upperArm'', ''torso''],
      [''l_thigh'', ''torso''], [''l_shin'', ''l_thigh'', ''torso''],
      [''r_thigh'', ''torso''], [''r_shin'', ''r_thigh'', ''torso'']]"
proof -
  have u: "[0..<10] = [0, 1, 2, 3, 4, 5, 6, 7, 8, 9::nat]" by code_simp
  show ?thesis
    unfolding u by (simp add: bean_bones_def eval_nat_numeral)
qed

lemma bean_bones_connected:
  "map bone_name (filter use_connect bean_bones) =
     [''head'', ''l_foreArm'', ''r_foreArm'', ''l_shin'', ''r_shin'']"
  "\<forall>b \<in> set bean_bones. use_connect b \<longrightarrow> connected_to_parent bean_bones b"
  by (simp_all add: bean_bones_def connected_to_parent_def)

lemma empty_scene_fresh: "sc_next empty_scene \<notin> fst ` set (sc_objects empty_scene)"
  by (simp add: empty_scene_def)

section \<open>The claims about create_armature\<close>

text \<open>
  Claim C2, as stated: the armature has exactly nine bones, one root and eight
  descendants.  It has ten: run on the empty scene, \<open>create_armature\<close> does not give an
  armature of nine bones.
\<close>

theorem armature_nine_bones_counterexample:
  "\<not> (\<exists>arm sc' ob. create_armature empty_scene = Inr (arm, sc') \<and>
        get_object arm sc' = Inr ob \<and> length (ob_bones ob) = 9)"
proof
  assume "\<exists>arm sc' ob. create_armature empty_scene = Inr (arm, sc') \<and>
        get_object arm sc' = Inr ob \<and> length (ob_bones ob) = 9"
  then obtain arm sc' ob where a: "create_armature empty_scene = Inr (arm, sc')"
    "get_object arm sc' = Inr ob" "length (ob_bones ob) = 9"
    by blast
  from create_armature_object [OF empty_scene_fresh] a(1,2)
  have "ob_bones ob = bean_bones" by auto
  with a(3) show False by (simp add: bean_bones_def)
qed

text \<open>
  Claim C2, amended.  Run on a scene whose next handle is not in use, \<open>create_armature\<close>
  returns an armature object with exactly ten bones: \<open>torso\<close>, the only bone without a
  parent, and nine descendants: \<open>head\<close>, \<open>l_upperArm\<close>, \<open>r_upperArm\<close>, \<open>l_thigh\<close> and
  \<open>r_thigh\<close> are children of \<open>torso\<close>; \<open>l_foreArm\<close> is the child of \<open>l_upperArm\<close>,
  \<open>r_foreArm\<close> of \<open>r_upperArm\<close>, \<open>l_shin\<close> of \<open>l_thigh\<close> and \<open>r_shin\<close> of \<open>r_thigh\<close>.
  The way from every bone to the root ends in \<open>torso\<close>.
\<close>

theorem armature_hierarchy:
  assumes "sc_next sc \<notin> fst ` set (sc_objects sc)"
  shows "\<exists>arm sc' ob. create_armature sc = Inr (arm, sc') \<and> get_object arm sc' = Inr ob \<and>
           ob_kind ob = ARMATURE \<and>
           length (ob_bones ob) = 10 \<and>
           map (\<lambda>b. (bone_name b, parent_name (ob_bones ob) b)) (ob_bones ob) =
             [(''torso'', None), (''head'', Some ''torso''),
              (''l_upperArm'', Some ''torso''), (''l_foreArm'', Some ''l_upperArm''),
              (''r_upperArm'', Some ''torso''), (''r_foreArm'', Some ''r_upperArm''),
              (''l_thigh'', Some ''torso''), (''l_shin'', Some ''l_thigh''),
              (''r_thigh'', Some ''torso''), (''r_shin'', Some ''r_thigh'')] \<and>
           map bone_name (filter (\<lambda>b. bone_parent b = None) (ob_bones ob)) = [''torso''] \<and>
           map (path_to_root (ob_bones ob) 10) [0..<10] =
             [[''torso''], [''head'', ''torso''],
              [''l_upperArm'', ''torso''], [''l_foreArm'', ''l_upperArm'', ''torso''],
              [''r_upperArm'', ''torso''], [''r_foreArm'', ''r_upperArm'', ''torso''],
              [''l_thigh'', ''torso''], [''l_shin'', ''l_thigh'', ''torso''],
              [''r_thigh'', ''torso''], [''r_shin'', ''r_thigh'', ''torso'']]"
proof -
  from create_armature_object [OF assms] obtain arm sc' ob where
    a: "create_armature sc = Inr (arm, sc')" "get_object arm sc' = Inr ob"
      "ob_kind ob = ARMATURE" "ob_bones ob = bean_bones"
    by blast
  have "length bean_bones = 10"
    "map bone_name (filter (\<lambda>b. bone_parent b = None) bean_bones) = [''torso'']"
    by (simp_all add: bean_bones_def)
  with a bean_bones_hierarchy bean_bones_paths show ?thesis
    by (intro exI [of _ arm] exI [of _ sc'] exI [of _ ob]) (simp only: simp_thms)
qed

theorem armature_hierarchy_witness:
  "\<exists>arm sc' ob. create_armature empty_scene = Inr (arm, sc') \<and> get_object arm sc' = Inr ob \<and>
     ob_kind ob = ARMATURE \<and> length (ob_bones ob) = 10 \<and>
     map (\<lambda>b. (bone_name b, parent_name (ob_bones ob) b)) (ob_bones ob) =
       [(''torso'', None), (''head'', Some ''torso''),
        (''l_upperArm'', Some ''torso''), (''l_foreArm'', Some ''l_upperArm''),
        (''r_upperArm'', Some ''torso''), (''r_foreArm'', Some ''r_upperArm''),
        (''l_thigh'', Some ''torso''), (''l_shin'', Some ''l_thigh''),
        (''r_thigh'', Some ''torso''), (''r_shin'', Some ''r_thigh'')] \<and>
     map bone_name (filter (\<lambda>b. bone_parent b = None) (ob_bones ob)) = [''torso''] \<and>
     map (path_to_root (ob_bones ob) 10) [0..<10] =
       [[''torso''], [''head'', ''torso''],
        [''l_upperArm'', ''torso''], [''l_foreArm'', ''l_upperArm'', ''torso''],
        [''r_upperArm'', ''torso''], [''r_foreArm'', ''r_upperArm'', ''torso''],
        [''l_thigh'', ''torso''], [''l_shin'', ''l_thigh'', ''torso''],
        [''r_thigh'', ''torso''], [''r_shin'', ''r_thigh'', ''torso'']]"
  by (rule armature_hierarchy [OF empty_scene_fresh])

text \<open>
  Claim C9.  The bones made with \<^verbatim>\<open>use_connect = True\<close> are \<open>head\<close>, \<open>l_foreArm\<close>,
  \<open>r_foreArm\<close>, \<open>l_shin\<close> and \<open>r_shin\<close>, and each of them has a parent and its head at
  exactly the position of its parent's tail.  The proof does not look at the values of
  the constants: the two positions are the same expression, or one is a copy of the other.
\<close>

theorem connected_bones_contiguous:
  assumes "sc_next sc \<notin> fst ` set (sc_objects sc)"
  shows "\<exists>arm sc' ob. create_armature sc = Inr (arm, sc') \<and> get_object arm sc' = Inr ob \<and>
           map bone_name (filter use_connect (ob_bones ob)) =
             [''head'', ''l_foreArm'', ''r_foreArm'', ''l_shin'', ''r_shin''] \<and>
           (\<forall>b \<in> set (ob_bones ob). use_connect b \<longrightarrow> connected_to_parent (ob_bones ob) b)"
proof -
  from create_armature_object [OF assms] obtain arm sc' ob where
    a: "create_armature sc = Inr (arm, sc')" "get_object arm sc' = Inr ob"
      "ob_bones ob = bean_bones"
    by blast
  with bean_bones_connected show ?thesis
    by (intro exI [of _ arm] exI [of _ sc'] exI [of _ ob]) (simp only: simp_thms)
qed

theorem connected_bones_contiguous_witness:
  "\<exists>arm sc' ob. create_armature empty_scene = Inr (arm, sc') \<and> get_object arm sc' = Inr ob \<and>
     map bone_name (filter use_connect (ob_bones ob)) =
       [''head'', ''l_foreArm'', ''r_foreArm'', ''l_shin'', ''r_shin''] \<and>
     list_all (connected_to_parent (ob_bones ob)) (filter use_connect (ob_bones ob))"
  using connected_bones_contiguous [OF empty_scene_fresh]
  apply (elim exE conjE)
  apply (intro exI conjI)
     apply assumption+
  apply (simp add: list_all_iff)
  done

section \<open>Paths that end in OUTPUT_PATH\<close>

lemma split_sep_nonempty [simp]: "split_sep s \<noteq> []"
  by (induction s) (auto split: list.splits)

lemma split_sep_append: "split_sep (a @ sep # b) = split_sep a @ split_sep b"
proof (induction a)
  case Nil
  then show ?case by simp
next
  case (Cons c a)
  then show ?case
    by (cases "split_sep a") auto
qed

lemma split_output_path: "split_sep OUTPUT_PATH = output_components"
  by (simp add: OUTPUT_PATH_def output_components_def sep_def)

lemma join_output_components: "join_sep output_components = OUTPUT_PATH"
  by (simp add: OUTPUT_PATH_def output_components_def sep_def)

lemma normpath_loop_append:
  "normpath_loop s (xs @ ys) new = normpath_loop s ys (normpath_loop s xs new)"
  by (induction xs arbitrary: new) auto

lemma normpath_loop_plain:
  "\<forall>c \<in> set ys. c \<noteq> [] \<and> c \<noteq> ''.'' \<and> c \<noteq> ''..'' \<Longrightarrow> normpath_loop s ys new = new @ ys"
  by (induction ys arbitrary: new) auto

lemma output_components_plain:
  "\<forall>c \<in> set output_components. c \<noteq> [] \<and> c \<noteq> ''.'' \<and> c \<noteq> ''..''"
  by (simp add: output_components_def)

lemma join_sep_append:
  "ys \<noteq> [] \<Longrightarrow>
   join_sep (xs @ ys) = (if xs = [] then join_sep ys else join_sep xs @ [sep] @ join_sep ys)"
proof (induction xs)
  case Nil
  then show ?case by simp
next
  case (Cons x xs)
  then show ?case
    by (cases xs; cases ys) auto
qed

lemma OUTPUT_PATH_relative: "\<not> isabs OUTPUT_PATH" "OUTPUT_PATH \<noteq> []"
  by (simp_all add: OUTPUT_PATH_def isabs_def sep_def)

lemma normpath_tail:
  assumes "split_sep p = cs @ output_components" and "p \<noteq> []"
  shows "suffix OUTPUT_PATH (normpath p)"
proof -
  let ?s = "initial_slashes p"
  let ?n = "normpath_loop ?s cs []"
  have loop: "normpath_loop ?s (split_sep p) [] = ?n @ output_components"
    by (simp add: assms(1) normpath_loop_append normpath_loop_plain [OF output_components_plain])
  have "output_components \<noteq> []" by (simp add: output_components_def)
  then have j: "join_sep (?n @ output_components) =
      (if ?n = [] then OUTPUT_PATH else join_sep ?n @ [sep] @ OUTPUT_PATH)"
    by (simp add: join_sep_append join_output_components)
  have "normpath p = replicate ?s sep @ join_sep (?n @ output_components)"
    using assms(2) OUTPUT_PATH_relative(2)
    by (simp add: normpath_def Let_def loop j)
  then show ?thesis
    by (simp add: j suffix_def)
qed

lemma abspath_output:
  "suffix OUTPUT_PATH (abspath cwd OUTPUT_PATH)"
proof -
  have j: "path_join cwd OUTPUT_PATH = OUTPUT_PATH \<or>
           (\<exists>c. path_join cwd OUTPUT_PATH = c @ sep # OUTPUT_PATH)"
  proof (cases "cwd = []")
    case True
    then show ?thesis by (simp add: path_join_def OUTPUT_PATH_relative)
  next
    case False
    show ?thesis
    proof (cases "last cwd = sep")
      case True
      with False have "cwd = butlast cwd @ [sep]" by (metis append_butlast_last_id)
      then have "path_join cwd OUTPUT_PATH = butlast cwd @ sep # OUTPUT_PATH"
        using True False by (simp add: path_join_def OUTPUT_PATH_relative)
      then show ?thesis by blast
    next
      case False
      then show ?thesis
        using \<open>cwd \<noteq> []\<close> by (simp add: path_join_def OUTPUT_PATH_relative)
    qed
  qed
  have ne: "path_join cwd OUTPUT_PATH \<noteq> []"
    using j OUTPUT_PATH_relative(2) by auto
  from j have "\<exists>cs. split_sep (path_join cwd OUTPUT_PATH) = cs @ output_components"
  proof
    assume "path_join cwd OUTPUT_PATH = OUTPUT_PATH"
    then show ?thesis by (metis append_Nil split_output_path)
  next
    assume "\<exists>c. path_join cwd OUTPUT_PATH = c @ sep # OUTPUT_PATH"
    then show ?thesis by (metis split_sep_append split_output_path)
  qed
  then obtain cs where "split_sep (path_join cwd OUTPUT_PATH) = cs @ output_components" ..
  from normpath_tail [OF this ne] show ?thesis
    by (simp add: abspath_def OUTPUT_PATH_relative)
qed

lemma path_join_output: "suffix OUTPUT_PATH (path_join project_root OUTPUT_PATH)"
  by (auto simp: path_join_def OUTPUT_PATH_relative suffix_def)

text \<open>
  Claim C6.  Whatever the surroundings (the current directory, the place of the script,
  and whether \<^verbatim>\<open>apps/client/public\<close> is found), the output path that \<^verbatim>\<open>main\<close> computes and
  hands to \<^verbatim>\<open>export_glb\<close> ends with \<^verbatim>\<open>apps/client/public/models/bean_character.glb\<close>;
  spelled out for each of the two branches.  Paths are POSIX paths.
\<close>

theorem output_path_fixed_tail:
  "suffix ''apps/client/public/models/bean_character.glb'' (main_output_path env) \<and>
   suffix OUTPUT_PATH (main_output_path \<lparr>isdir_public = True, getcwd = cwd, script_file = file\<rparr>) \<and>
   suffix OUTPUT_PATH (main_output_path \<lparr>isdir_public = False, getcwd = cwd, script_file = file\<rparr>)"
  using abspath_output path_join_output
  by (simp add: main_output_path_def Let_def OUTPUT_PATH_def [symmetric])

end
